theory Spec2Isabelle
  imports Complex_Main "HOL-Library.Multiset" "HOL-Library.Product_Lexorder"
    "HOL-Library.List_Lexorder" "HOL-Library.AList"
begin

section \<open>Strings and numbers of the platform\<close>

text \<open>
  A JavaScript string is modelled as a \<^typ>\<open>string\<close> holding its UTF-8 bytes. The code
  only tests strings for emptiness and equality, deletes the code units that are not ASCII digits
  or \<open>.\<close>, and hands them to \<open>localeCompare\<close>; each byte of a non-ASCII character is neither a
  digit nor a dot, so the deletion gives the same text in both encodings.

  A finite Number is modelled as the rational it denotes. The only Numbers the code ever
  compares come out of \<open>Number.parseFloat\<close> applied to a text of digits and dots; they are
  non-negative, so \<open>-0\<close> does not occur and \<open>===\<close>, \<open><\<close>, \<open>Math.min\<close>, \<open>Math.max\<close> on them
  are \<open>=\<close>, \<open><\<close>, \<open>Min\<close>, \<open>Max\<close> on the rationals.
\<close>

datatype number = NaN | Infinity | Finite rat

definition isDigit :: "char \<Rightarrow> bool" where
  "isDigit c = (c \<in> set ''0123456789'')"

definition digitVal :: "char \<Rightarrow> nat" where
  "digitVal c = of_char c - 48"

text \<open>The mathematical value of a run of decimal digits, most significant first.\<close>

definition digitsVal :: "string \<Rightarrow> nat" where
  "digitsVal ds = foldl (\<lambda>acc c. 10 * acc + digitVal c) 0 ds"

text \<open>\<open>floorLog2 n d\<close> is the integer \<open>e\<close> with \<open>2^e \<le> n / d < 2^(e+1)\<close>, for positive \<open>n\<close>, \<open>d\<close>.\<close>

fun bitLength :: "nat \<Rightarrow> nat" where
  "bitLength n = (if n = 0 then 0 else Suc (bitLength (n div 2)))"

declare bitLength.simps [simp del]

definition pow2 :: "int \<Rightarrow> rat" where
  "pow2 k = (if 0 \<le> k then 2 ^ nat k else 1 / 2 ^ nat (- k))"

definition floorLog2 :: "nat \<Rightarrow> nat \<Rightarrow> int" where
  "floorLog2 n d =
     (let a = int (bitLength n) - int (bitLength d)
      in if pow2 a \<le> of_nat n / of_nat d then a else a - 1)"

text \<open>The quotient \<open>a / b\<close> rounded to the nearest integer, ties to the even neighbour.\<close>

definition roundHalfEven :: "nat \<Rightarrow> nat \<Rightarrow> nat" where
  "roundHalfEven a b =
     (let q = a div b; r = a mod b
      in if 2 * r < b then q
         else if b < 2 * r then q + 1
         else if even q then q else q + 1)"

text \<open>
  The Number value of the non-negative rational \<open>n / d\<close> (ECMA-262, "the Number value for x"):
  the nearest IEEE 754 binary64 value, ties to the even significand. With \<open>e\<close> the binary
  exponent of \<open>n / d\<close>, clamped at \<open>-1022\<close> for the subnormal range, the significand \<open>m\<close> is
  \<open>n / d / 2^(e - 52)\<close> rounded, the value is \<open>m * 2^(e - 52)\<close>, and it is \<open>+\<infinity>\<close> where the
  rounding reaches \<open>2^1024\<close>.
\<close>

definition numberValue :: "nat \<Rightarrow> nat \<Rightarrow> number" where
  "numberValue n d =
     (if n = 0 then Finite 0
      else
        let e = max (floorLog2 n d) (- 1022);
            m = (if e \<le> 52 then roundHalfEven (n * 2 ^ nat (52 - e)) d
                 else roundHalfEven n (d * 2 ^ nat (e - 52)));
            r = of_nat m * pow2 (e - 52)
        in if 2 ^ 1024 \<le> r then Infinity else Finite r)"

text \<open>
  \<open>Number.parseFloat\<close> on a text that holds only digits and dots, which is all that
  \<open>parsePrice\<close> passes to it: the longest prefix that is a \<open>StrDecimalLiteral\<close> is the leading
  digits, then (if a dot follows) the dot and the digits after it; with no digit on either side
  there is no such prefix and the result is \<open>NaN\<close>. Whatever follows the prefix is ignored.
  The conversion is taken to be correctly rounded (the standard lets an engine approximate
  beyond the 20th significant digit).
\<close>

definition parseFloat :: "string \<Rightarrow> number" where
  "parseFloat s =
     (let ip = takeWhile isDigit s;
          rest = dropWhile isDigit s;
          fp = (case rest of [] \<Rightarrow> [] | c # t \<Rightarrow> if c = CHR ''.'' then takeWhile isDigit t else [])
      in if ip = [] \<and> fp = [] then NaN
         else numberValue (digitsVal (ip @ fp)) (10 ^ length fp))"

definition isFinite :: "number \<Rightarrow> bool" where
  "isFinite x = (case x of Finite _ \<Rightarrow> True | _ \<Rightarrow> False)"

section \<open>The price normalizer\<close>

text \<open>
  \<open>parsePrice\<close> of \<^verbatim>\<open>compare/page.tsx\<close> (the plan and split pages carry the same function):
  \<^verbatim>\<open>
  function parsePrice(value: string | null | undefined): number | null {
    if (!value) return null;
    const cleaned = value.replace(/[^0-9.]/g, "");
    if (!cleaned) return null;
    const num = Number.parseFloat(cleaned);
    return Number.isFinite(num) ? num : null;
  }\<close>
  \<open>None\<close> stands for \<open>null\<close> and \<open>undefined\<close>, on both sides.
\<close>

definition cleaned :: "string \<Rightarrow> string" where
  "cleaned v = filter (\<lambda>c. isDigit c \<or> c = CHR ''.'') v"

definition parsePrice :: "string option \<Rightarrow> rat option" where
  "parsePrice value =
     (case value of
        None \<Rightarrow> None
      | Some v \<Rightarrow>
          if v = [] then None
          else if cleaned v = [] then None
          else (case parseFloat (cleaned v) of Finite x \<Rightarrow> Some x | _ \<Rightarrow> None))"

section \<open>The data model\<close>

text \<open>
  The payload types shared by the three pages. \<open>prices_by_store\<close> is a JavaScript object
  \<^verbatim>\<open>Record<string, ApiStorePrice>\<close>; it is modelled by the list of its entries in the order in
  which \<open>Object.keys\<close> and \<open>Object.entries\<close> enumerate them, and \<open>obj[store]\<close> by
  \<^const>\<open>map_of\<close>. A \<open>null\<close> object is read as \<open>{}\<close> by every use
  (\<^verbatim>\<open>row.prices_by_store ?? {}\<close>, \<^verbatim>\<open>row.prices_by_store?.[store]\<close>), so it is the empty list.
\<close>

record ApiStorePrice =
  price :: string
  unit_price :: "string option"
  source_url :: "string option"
  scraped_at :: "string option"

record ApiCompareRow =
  product_key :: string
  name :: string
  packaging_format :: "string option"
  image_ref :: "string option"
  prices_by_store :: "(string \<times> ApiStorePrice) list"

record GroupedItem =
  item_product_key :: string
  item_name :: string
  item_packaging_format :: "string option"
  item_image :: "string option"
  item_store :: string
  priceText :: "string option"
  priceNumber :: "rat option"

record StoreGroup =
  store :: string
  items :: "GroupedItem list"

text \<open>\<^verbatim>\<open>Object.keys(row.prices_by_store ?? {})\<close>\<close>

definition storeKeys :: "ApiCompareRow \<Rightarrow> string list" where
  "storeKeys row = map fst (prices_by_store row)"

text \<open>\<^verbatim>\<open>row.prices_by_store?.[store]\<close>, then \<^verbatim>\<open>cell?.price\<close>, then \<^verbatim>\<open>parsePrice(cell?.price)\<close>\<close>

definition cellAt :: "ApiCompareRow \<Rightarrow> string \<Rightarrow> ApiStorePrice option" where
  "cellAt row s = map_of (prices_by_store row) s"

definition priceTextAt :: "ApiCompareRow \<Rightarrow> string \<Rightarrow> string option" where
  "priceTextAt row s = map_option price (cellAt row s)"

definition priceAt :: "ApiCompareRow \<Rightarrow> string \<Rightarrow> rat option" where
  "priceAt row s = parsePrice (priceTextAt row s)"

section \<open>Containers and sorting of the platform\<close>

text \<open>
  A \<open>Set\<close> is a duplicate-free list in insertion order; a \<open>Map\<close> is an association list in
  insertion order, where \<open>set\<close> on a present key replaces the value in place and on a new key
  appends (\<^const>\<open>AList.update\<close>), and \<open>get\<close> is \<^const>\<open>map_of\<close>.

  \<open>a.localeCompare(b)\<close> is a consistent comparator on strings whose result depends on the
  platform's collation. It is not fixed here: every function that sorts takes the collation as
  a sort key \<open>ck\<close> into a linear order, \<open>a.localeCompare(b)\<close> being negative, zero or positive as
  \<open>ck a\<close> is less than, equal to or greater than \<open>ck b\<close>. \<open>Array.prototype.sort\<close> is stable, so
  sorting with that comparator is \<^const>\<open>sort_key\<close>. Distinct strings may have the same key: the
  standard requires \<open>localeCompare\<close> to return \<open>0\<close> on canonically equivalent strings.
\<close>

definition setAdd :: "'a list \<Rightarrow> 'a \<Rightarrow> 'a list" where
  "setAdd s x = (if x \<in> set s then s else s @ [x])"

definition mapGetOr :: "('k \<times> 'v) list \<Rightarrow> 'k \<Rightarrow> 'v \<Rightarrow> 'v" where
  "mapGetOr m k d = (case map_of m k of None \<Rightarrow> d | Some v \<Rightarrow> v)"

section \<open>The global store list\<close>

text \<open>
  \<^verbatim>\<open>
  const stores = useMemo(() => {
    const set = new Set<string>();
    for (const row of rows)
      for (const storeName of Object.keys(row.prices_by_store ?? {}))
        if (storeName) set.add(storeName);
    return Array.from(set).sort((a, b) => a.localeCompare(b));
  }, [rows]);\<close>
\<close>

definition storeSet :: "ApiCompareRow list \<Rightarrow> string list" where
  "storeSet rows =
     foldl (\<lambda>s row. foldl (\<lambda>s storeName. if storeName \<noteq> [] then setAdd s storeName else s)
                         s (storeKeys row))
           [] rows"

definition stores :: "(string \<Rightarrow> 'k::linorder) \<Rightarrow> ApiCompareRow list \<Rightarrow> string list" where
  "stores ck rows = sort_key ck (storeSet rows)"

section \<open>Policy A: cheapest-store grouping\<close>

text \<open>
  The inner loop of \<open>cheapestGroups\<close> over the stores of one row; the state is the three
  variables \<open>bestStore\<close>, \<open>bestPrice\<close>, \<open>bestPriceText\<close>.
  \<^verbatim>\<open>
  for (const store of Object.keys(row.prices_by_store ?? {})) {
    const cell = row.prices_by_store?.[store];
    const priceNumber = parsePrice(cell?.price);
    if (priceNumber === null) continue;
    if (bestPrice === null || priceNumber < bestPrice) {
      bestPrice = priceNumber; bestStore = store; bestPriceText = cell?.price ?? null;
    }
  }\<close>
\<close>

type_synonym best = "string option \<times> rat option \<times> string option"

definition scanStore :: "ApiCompareRow \<Rightarrow> best \<Rightarrow> string \<Rightarrow> best" where
  "scanStore row b s =
     (case priceAt row s of
        None \<Rightarrow> b
      | Some p \<Rightarrow>
          (case fst (snd b) of
             None \<Rightarrow> (Some s, Some p, priceTextAt row s)
           | Some bestPrice \<Rightarrow>
               if p < bestPrice then (Some s, Some p, priceTextAt row s) else b))"

definition bestOf :: "ApiCompareRow \<Rightarrow> best" where
  "bestOf row = foldl (scanStore row) (None, None, None) (storeKeys row)"

text \<open>The value of the variable \<open>bestStore\<close> when the inner loop ends.\<close>

definition bestStoreOf :: "ApiCompareRow \<Rightarrow> string option" where
  "bestStoreOf row = fst (bestOf row)"

text \<open>\<^verbatim>\<open>byStore.set(s, [...(byStore.get(s) ?? []), item])\<close>, the same line in both policies.\<close>

definition appendItem ::
  "(string \<times> GroupedItem list) list \<Rightarrow> string \<Rightarrow> GroupedItem \<Rightarrow> (string \<times> GroupedItem list) list"
where
  "appendItem byStore s item = AList.update s (mapGetOr byStore s [] @ [item]) byStore"

definition mkItem :: "ApiCompareRow \<Rightarrow> string \<Rightarrow> string option \<Rightarrow> rat option \<Rightarrow> GroupedItem" where
  "mkItem row s txt num =
     \<lparr>item_product_key = product_key row, item_name = name row,
      item_packaging_format = packaging_format row, item_image = image_ref row,
      item_store = s, priceText = txt, priceNumber = num\<rparr>"

text \<open>
  One pass of the outer loop. \<^verbatim>\<open>if (!bestStore) continue;\<close> skips the row when \<open>bestStore\<close>
  is \<open>null\<close> and also when it is the empty string, which is falsy.
\<close>

definition cheapestStep ::
  "(string \<times> GroupedItem list) list \<Rightarrow> ApiCompareRow \<Rightarrow> (string \<times> GroupedItem list) list"
where
  "cheapestStep byStore row =
     (case bestOf row of
        (None, _, _) \<Rightarrow> byStore
      | (Some bestStore, bestPrice, bestPriceText) \<Rightarrow>
          if bestStore = [] then byStore
          else appendItem byStore bestStore (mkItem row bestStore bestPriceText bestPrice))"

definition toGroup :: "string \<times> GroupedItem list \<Rightarrow> StoreGroup" where
  "toGroup e = \<lparr>store = fst e, items = snd e\<rparr>"

text \<open>
  \<^verbatim>\<open>
  return Array.from(byStore.entries())
    .map(([store, items]) => ({ store, items }))
    .sort((a, b) => a.store.localeCompare(b.store));\<close>
\<close>

definition cheapestGroups :: "(string \<Rightarrow> 'k::linorder) \<Rightarrow> ApiCompareRow list \<Rightarrow> StoreGroup list" where
  "cheapestGroups ck rows =
     sort_key (\<lambda>g. ck (store g)) (map toGroup (foldl cheapestStep [] rows))"

section \<open>Policy B: availability-ranked grouping\<close>

text \<open>
  \<^verbatim>\<open>
  const availabilityCount = new Map<string, number>();
  for (const store of stores) availabilityCount.set(store, 0);
  for (const row of rows)
    for (const store of stores) {
      const cell = row.prices_by_store?.[store];
      if (parsePrice(cell?.price) !== null)
        availabilityCount.set(store, (availabilityCount.get(store) ?? 0) + 1);
    }
  const rankedStores = [...stores].sort((a, b) => {
    const diff = (availabilityCount.get(b) ?? 0) - (availabilityCount.get(a) ?? 0);
    return diff !== 0 ? diff : a.localeCompare(b);
  });\<close>
  The comparator puts \<open>a\<close> before \<open>b\<close> when \<open>a\<close> has the larger count, and on equal counts when
  \<open>a\<close> collates first: the sort key is the pair of the negated count and the collation key,
  ordered lexicographically.
\<close>

definition availabilityCount :: "string list \<Rightarrow> ApiCompareRow list \<Rightarrow> (string \<times> nat) list" where
  "availabilityCount sts rows =
     foldl (\<lambda>m row.
              foldl (\<lambda>m s. if priceAt row s \<noteq> None then AList.update s (mapGetOr m s 0 + 1) m else m)
                    m sts)
           (foldl (\<lambda>m s. AList.update s 0 m) [] sts) rows"

definition rankedStoresOf ::
  "(string \<Rightarrow> 'k::linorder) \<Rightarrow> string list \<Rightarrow> ApiCompareRow list \<Rightarrow> string list"
where
  "rankedStoresOf ck sts rows =
     (let cnt = availabilityCount sts rows
      in sort_key (\<lambda>s. (- int (mapGetOr cnt s 0), ck s)) sts)"

text \<open>
  \<^verbatim>\<open>
  let chosenStore: string | null = null;
  for (const store of rankedStores) {
    const cell = row.prices_by_store?.[store];
    if (parsePrice(cell?.price) !== null) { chosenStore = store; break; }
  }\<close>
\<close>

definition chosenStore :: "string list \<Rightarrow> ApiCompareRow \<Rightarrow> string option" where
  "chosenStore ranked row = find (\<lambda>s. priceAt row s \<noteq> None) ranked"

definition availabilityStep ::
  "string list \<Rightarrow> (string \<times> GroupedItem list) list \<Rightarrow> ApiCompareRow
     \<Rightarrow> (string \<times> GroupedItem list) list"
where
  "availabilityStep ranked byStore row =
     (case chosenStore ranked row of
        None \<Rightarrow> byStore
      | Some s \<Rightarrow>
          if s = [] then byStore
          else appendItem byStore s (mkItem row s (priceTextAt row s) (priceAt row s)))"

text \<open>
  \<open>availabilityGroupsOf\<close> is the body of the memo with its two dependencies \<open>rows\<close> and
  \<open>stores\<close> as arguments; \<open>availabilityGroups\<close> supplies the page's own \<open>stores\<close>.
  \<^verbatim>\<open>
  const byStore = new Map<string, GroupedItem[]>();
  for (const store of rankedStores) byStore.set(store, []);
  for (const row of rows) { ... byStore.set(chosenStore, [...(byStore.get(chosenStore) ?? []), item]); }
  return Array.from(byStore.entries())
    .map(([store, items]) => ({ store, items }))
    .filter((group) => group.items.length > 0);\<close>
\<close>

definition availabilityGroupsOf ::
  "(string \<Rightarrow> 'k::linorder) \<Rightarrow> string list \<Rightarrow> ApiCompareRow list \<Rightarrow> StoreGroup list"
where
  "availabilityGroupsOf ck sts rows =
     (let rankedStores = rankedStoresOf ck sts rows;
          byStore = foldl (availabilityStep rankedStores)
                          (foldl (\<lambda>m s. AList.update s [] m) [] rankedStores) rows
      in filter (\<lambda>group. length (items group) > 0) (map toGroup byStore))"

definition rankedStores :: "(string \<Rightarrow> 'k::linorder) \<Rightarrow> ApiCompareRow list \<Rightarrow> string list" where
  "rankedStores ck rows = rankedStoresOf ck (stores ck rows) rows"

definition availabilityGroups ::
  "(string \<Rightarrow> 'k::linorder) \<Rightarrow> ApiCompareRow list \<Rightarrow> StoreGroup list"
where
  "availabilityGroups ck rows = availabilityGroupsOf ck (stores ck rows) rows"

section \<open>Best and worst highlighting of the comparison table\<close>

text \<open>
  The cells of one table row in \<^verbatim>\<open>compare/page.tsx\<close>; the columns are the global store list.
  \<^verbatim>\<open>
  const numericByStore = new Map<string, number>();
  for (const store of stores) {
    const cell = row.prices_by_store?.[store];
    const priceNumber = parsePrice(cell?.price);
    if (priceNumber !== null) numericByStore.set(store, priceNumber);
  }
  const values = Array.from(numericByStore.values());
  const min = values.length ? Math.min(...values) : null;
  const max = values.length ? Math.max(...values) : null;
  const highlightWorst = min !== null && max !== null && min !== max;
  return stores.map((store) => {
    const priceNumber = numericByStore.get(store);
    const isBest = min !== null && priceNumber === min;
    const isWorst = highlightWorst && max !== null && priceNumber === max;
    ... });\<close>
  A cell of the model carries the two flags from which the class name is built. The spread
  calls \<open>Math.min(...values)\<close> and \<open>Math.max(...values)\<close> are taken to stay within the engine's
  limit on the number of arguments.
\<close>

record HighlightCell =
  cell_store :: string
  isBest :: bool
  isWorst :: bool

definition numericByStore :: "string list \<Rightarrow> ApiCompareRow \<Rightarrow> (string \<times> rat) list" where
  "numericByStore sts row =
     foldl (\<lambda>m s. case priceAt row s of None \<Rightarrow> m | Some p \<Rightarrow> AList.update s p m) [] sts"

definition mathMin :: "rat list \<Rightarrow> rat option" where
  "mathMin vs = (case vs of [] \<Rightarrow> None | v # ws \<Rightarrow> Some (fold min ws v))"

definition mathMax :: "rat list \<Rightarrow> rat option" where
  "mathMax vs = (case vs of [] \<Rightarrow> None | v # ws \<Rightarrow> Some (fold max ws v))"

definition highlightCells :: "string list \<Rightarrow> ApiCompareRow \<Rightarrow> HighlightCell list" where
  "highlightCells sts row =
     (let nbs = numericByStore sts row;
          vals = map snd nbs;
          mn = mathMin vals;
          mx = mathMax vals;
          highlightWorst = (mn \<noteq> None \<and> mx \<noteq> None \<and> mn \<noteq> mx)
      in map (\<lambda>s. let pn = map_of nbs s
                  in \<lparr>cell_store = s,
                      isBest = (mn \<noteq> None \<and> pn = mn),
                      isWorst = (highlightWorst \<and> mx \<noteq> None \<and> pn = mx)\<rparr>) sts)"

definition compareTable ::
  "(string \<Rightarrow> 'k::linorder) \<Rightarrow> ApiCompareRow list \<Rightarrow> HighlightCell list list"
where
  "compareTable ck rows = map (highlightCells (stores ck rows)) rows"

section \<open>The plan view\<close>

text \<open>
  \<open>planRows\<close> of \<^verbatim>\<open>plan/page.tsx\<close>, for one row:
  \<^verbatim>\<open>
  let best: number | null = null;
  const supermarkets: string[] = [];
  for (const [store, cell] of Object.entries(row.prices_by_store ?? {})) {
    const priceNumber = parsePrice(cell?.price);
    if (priceNumber === null) continue;
    if (best === null || priceNumber < best) best = priceNumber;
  }
  if (best !== null)
    for (const [store, cell] of Object.entries(row.prices_by_store ?? {})) {
      const priceNumber = parsePrice(cell?.price);
      if (priceNumber === best) supermarkets.push(store);
    }
  supermarkets.sort((a, b) => a.localeCompare(b));\<close>
  The field \<open>bestPriceText\<close> of the source is \<open>best.toFixed(2)\<close>, and \<open>null\<close> exactly when
  \<open>bestPriceNumber\<close> is; it is a rendering of the number and is left out of the record.
\<close>

record PlanRow =
  plan_product_key :: string
  plan_name :: string
  plan_packaging_format :: "string option"
  plan_image :: "string option"
  bestPriceNumber :: "rat option"
  supermarkets :: "string list"

definition entryPrice :: "string \<times> ApiStorePrice \<Rightarrow> rat option" where
  "entryPrice e = parsePrice (Some (price (snd e)))"

definition planBest :: "ApiCompareRow \<Rightarrow> rat option" where
  "planBest row =
     foldl (\<lambda>best e. case entryPrice e of
                        None \<Rightarrow> best
                      | Some p \<Rightarrow> (case best of None \<Rightarrow> Some p
                                   | Some b \<Rightarrow> if p < b then Some p else best))
           None (prices_by_store row)"

definition planRow :: "(string \<Rightarrow> 'k::linorder) \<Rightarrow> ApiCompareRow \<Rightarrow> PlanRow" where
  "planRow ck row =
     (let best = planBest row;
          pushed = (if best \<noteq> None
                    then map fst (filter (\<lambda>e. entryPrice e = best) (prices_by_store row))
                    else [])
      in \<lparr>plan_product_key = product_key row, plan_name = name row,
          plan_packaging_format = packaging_format row, plan_image = image_ref row,
          bestPriceNumber = best, supermarkets = sort_key ck pushed\<rparr>)"

definition planRows :: "(string \<Rightarrow> 'k::linorder) \<Rightarrow> ApiCompareRow list \<Rightarrow> PlanRow list" where
  "planRows ck rows = map (planRow ck) rows"

section \<open>Sample inputs\<close>

text \<open>
  A collation that orders strings by their code units, under which distinct strings never
  compare equal; and rows built from a product key and a list of (store, price text) pairs.
\<close>

definition codeUnits :: "string \<Rightarrow> nat list" where
  "codeUnits s = map of_char s"

text \<open>
  A collation that, as the standard requires of \<open>localeCompare\<close>, does not separate canonically
  equivalent texts: the letter \<open>U+00E9\<close> (bytes \<open>C3 A9\<close>) and the sequence \<open>U+0065 U+0301\<close>
  (bytes \<open>65 CC 81\<close>) get the same key; other texts are ordered by their code units.
\<close>

definition canonicalUnits :: "string \<Rightarrow> nat list" where
  "canonicalUnits s =
     codeUnits (if s = [CHR 0x65, CHR 0xCC, CHR 0x81] then [CHR 0xC3, CHR 0xA9] else s)"

definition mkCell :: "string \<Rightarrow> ApiStorePrice" where
  "mkCell t = \<lparr>price = t, unit_price = None, source_url = None, scraped_at = None\<rparr>"

definition mkRow :: "string \<Rightarrow> (string \<times> string) list \<Rightarrow> ApiCompareRow" where
  "mkRow k ps =
     \<lparr>product_key = k, name = k, packaging_format = None, image_ref = None,
      prices_by_store = map (\<lambda>(s, t). (s, mkCell t)) ps\<rparr>"

section \<open>Auxiliary notions for the proofs\<close>

text \<open>
  Both policies run the same kind of loop: each row is either skipped or appended to the list
  of one store. \<open>groupStep place item\<close> is one pass of such a loop, \<open>place\<close> giving the store of a
  row (if any) and \<open>item\<close> the entry that is appended.
\<close>

definition groupStep ::
  "('r \<Rightarrow> string option) \<Rightarrow> ('r \<Rightarrow> GroupedItem) \<Rightarrow> (string \<times> GroupedItem list) list \<Rightarrow> 'r
     \<Rightarrow> (string \<times> GroupedItem list) list"
where
  "groupStep place item m row =
     (case place row of None \<Rightarrow> m | Some s \<Rightarrow> appendItem m s (item row))"

text \<open>The store under which Policy A files a row, and the entry it files.\<close>

definition placedCheapest :: "ApiCompareRow \<Rightarrow> string option" where
  "placedCheapest row =
     (case bestStoreOf row of None \<Rightarrow> None | Some s \<Rightarrow> if s = [] then None else Some s)"

definition itemCheapest :: "ApiCompareRow \<Rightarrow> GroupedItem" where
  "itemCheapest row =
     (case bestOf row of
        (bs, bp, bt) \<Rightarrow> mkItem row (case bs of None \<Rightarrow> [] | Some s \<Rightarrow> s) bt bp)"

text \<open>The same for Policy B, given the ranked store list.\<close>

definition placedAvailable :: "string list \<Rightarrow> ApiCompareRow \<Rightarrow> string option" where
  "placedAvailable ranked row =
     (case chosenStore ranked row of None \<Rightarrow> None | Some s \<Rightarrow> if s = [] then None else Some s)"

definition itemAvailable :: "string list \<Rightarrow> ApiCompareRow \<Rightarrow> GroupedItem" where
  "itemAvailable ranked row =
     (case chosenStore ranked row of
        None \<Rightarrow> mkItem row [] None None
      | Some s \<Rightarrow> mkItem row s (priceTextAt row s) (priceAt row s))"

text \<open>The number of rows with a parseable price at a store, and all product keys of a result.\<close>

definition coverage :: "ApiCompareRow list \<Rightarrow> string \<Rightarrow> nat" where
  "coverage rows s = length (filter (\<lambda>row. priceAt row s \<noteq> None) rows)"

definition groupedKeys :: "StoreGroup list \<Rightarrow> string list" where
  "groupedKeys gs = map item_product_key (concat (map items gs))"

section \<open>Properties of the price normalizer\<close>

lemma isDigit_dot [simp]: "\<not> isDigit CHR ''.''"
  by (simp add: isDigit_def)

lemma parseFloat_Nil [simp]: "parseFloat [] = NaN"
  by (simp add: parseFloat_def)

lemma cleaned_Nil [simp]: "cleaned [] = []"
  by (simp add: cleaned_def)

lemma parsePrice_Some:
  "parsePrice (Some v) = (case parseFloat (cleaned v) of Finite x \<Rightarrow> Some x | _ \<Rightarrow> None)"
  by (auto simp: parsePrice_def)

lemma parsePrice_None [simp]: "parsePrice None = None"
  by (simp add: parsePrice_def)

lemma parseFloat_no_digit:
  assumes "\<forall>c\<in>set s. \<not> isDigit c"
  shows "parseFloat s = NaN"
proof (cases s)
  case Nil
  then show ?thesis by simp
next
  case (Cons c t)
  with assms have c: "\<not> isDigit c" and t: "takeWhile isDigit t = []"
    by (auto simp: takeWhile_eq_Nil_iff intro: hd_in_set)
  show ?thesis
    unfolding Cons parseFloat_def using c t by (simp add: Let_def)
qed

lemma parsePrice_no_digit: "\<forall>c\<in>set v. \<not> isDigit c \<Longrightarrow> parsePrice (Some v) = None"
  by (simp add: parsePrice_Some parseFloat_no_digit cleaned_def)

text \<open>Everything from the second decimal point on is ignored by \<open>parseFloat\<close>.\<close>

lemma parseFloat_second_dot:
  assumes "\<forall>c\<in>set ds1. isDigit c" "\<forall>c\<in>set ds2. isDigit c"
  shows "parseFloat (ds1 @ CHR ''.'' # ds2 @ CHR ''.'' # rest) = parseFloat (ds1 @ CHR ''.'' # ds2)"
proof -
  have 1: "takeWhile isDigit (ds1 @ CHR ''.'' # xs) = ds1" for xs
    using assms(1) by (simp add: takeWhile_append2)
  have 2: "dropWhile isDigit (ds1 @ CHR ''.'' # xs) = CHR ''.'' # xs" for xs
    using assms(1) by (simp add: dropWhile_append2)
  have 3: "takeWhile isDigit (ds2 @ CHR ''.'' # rest) = ds2" "takeWhile isDigit ds2 = ds2"
    using assms(2) by (simp_all add: takeWhile_append2)
  show ?thesis
    by (simp add: parseFloat_def 1 2 3)
qed

subsection \<open>Evaluation on concrete texts\<close>

lemma bitLength_numeral [simp]: "bitLength (numeral k) = Suc (bitLength (numeral k div 2))"
  by (subst bitLength.simps) simp

lemma bitLength_0 [simp]: "bitLength 0 = 0"
  by (subst bitLength.simps) simp

lemma bitLength_1 [simp]: "bitLength (Suc 0) = Suc 0"
  by (subst bitLength.simps) simp

lemmas number_eval = numberValue_def floorLog2_def pow2_def roundHalfEven_def Let_def

lemmas parse_eval = parseFloat_def isDigit_def digitsVal_def digitVal_def Let_def

lemma numberValue_12_50: "numberValue 1250 100 = Finite (25 / 2)"
  by (simp add: number_eval)

lemma numberValue_9_99: "numberValue 999 100 = Finite (5623870034678907 / 562949953421312)"
  by (simp add: number_eval)

lemma numberValue_1_2: "numberValue 12 10 = Finite (5404319552844595 / 4503599627370496)"
  by (simp add: number_eval)

lemma numberValue_small [simp]:
  "numberValue (Suc 0) (Suc 0) = Finite 1" "numberValue 2 (Suc 0) = Finite 2"
  "numberValue 3 (Suc 0) = Finite 3" "numberValue 5 (Suc 0) = Finite 5"
  "numberValue 1250 (Suc 0) = Finite 1250"
  by (simp_all add: number_eval)

lemma parsePrice_small [simp]:
  "parsePrice (Some ''1'') = Some 1" "parsePrice (Some ''2'') = Some 2"
  "parsePrice (Some ''3'') = Some 3" "parsePrice (Some ''5'') = Some 5"
  "parsePrice (Some ''n/a'') = None"
  by (simp_all add: parsePrice_Some cleaned_def parse_eval)

lemma parsePrice_dollar: "parsePrice (Some ''$12.50'') = Some (25 / 2)"
proof -
  have "cleaned ''$12.50'' = ''12.50''"
    by (simp add: cleaned_def isDigit_def)
  moreover have "parseFloat ''12.50'' = numberValue 1250 100"
    by (simp add: parse_eval)
  ultimately show ?thesis
    by (simp add: parsePrice_Some numberValue_12_50)
qed

lemma parsePrice_comma: "parsePrice (Some ''12,50'') = Some 1250"
proof -
  have "cleaned ''12,50'' = ''1250''"
    by (simp add: cleaned_def isDigit_def)
  moreover have "parseFloat ''1250'' = numberValue 1250 1"
    by (simp add: parse_eval)
  ultimately show ?thesis
    by (simp add: parsePrice_Some)
qed

text \<open>The euro sign is the three bytes \<open>E2 82 AC\<close>.\<close>

lemma parsePrice_euro:
  "parsePrice (Some ([CHR 0xE2, CHR 0x82, CHR 0xAC] @ '' 9.99''))
     = Some (5623870034678907 / 562949953421312)"
proof -
  have "cleaned ([CHR 0xE2, CHR 0x82, CHR 0xAC] @ '' 9.99'') = ''9.99''"
    by (simp add: cleaned_def isDigit_def)
  moreover have "parseFloat ''9.99'' = numberValue 999 100"
    by (simp add: parse_eval)
  ultimately show ?thesis
    by (simp add: parsePrice_Some numberValue_9_99)
qed

lemma parsePrice_1_2: "parsePrice (Some ''1.2'') = Some (5404319552844595 / 4503599627370496)"
proof -
  have "cleaned ''1.2'' = ''1.2''"
    by (simp add: cleaned_def isDigit_def)
  moreover have "parseFloat ''1.2'' = numberValue 12 10"
    by (simp add: parse_eval)
  ultimately show ?thesis
    by (simp add: parsePrice_Some numberValue_1_2)
qed

text \<open>A text of 310 nines overflows to \<open>+\<infinity>\<close>, which \<open>Number.isFinite\<close> rejects.\<close>

lemma digitsVal_replicate9:
  "foldl (\<lambda>acc c. 10 * acc + digitVal c) a (replicate k CHR ''9'') = (a + 1) * 10 ^ k - 1"
proof (induction k arbitrary: a)
  case 0
  show ?case by simp
next
  case (Suc k)
  have "foldl (\<lambda>acc c. 10 * acc + digitVal c) a (replicate (Suc k) CHR ''9'')
      = foldl (\<lambda>acc c. 10 * acc + digitVal c) (10 * a + 9) (replicate k CHR ''9'')"
    by (simp add: digitVal_def)
  also have "\<dots> = (10 * a + 9 + 1) * 10 ^ k - 1"
    by (rule Suc.IH)
  also have "\<dots> = (a + 1) * 10 ^ Suc k - 1"
    by (simp add: algebra_simps)
  finally show ?case .
qed

lemma numberValue_nines: "numberValue (10 ^ 310 - 1) 1 = Infinity"
  by (simp add: number_eval)

lemma parseFloat_overflow: "parseFloat (replicate 310 CHR ''9'') = Infinity"
proof -
  have "takeWhile isDigit (replicate 310 CHR ''9'') = replicate 310 CHR ''9''"
    by (simp add: takeWhile_eq_all_conv isDigit_def)
  moreover have "dropWhile isDigit (replicate 310 CHR ''9'') = []"
    by (simp add: isDigit_def)
  ultimately have "parseFloat (replicate 310 CHR ''9'') = numberValue (10 ^ 310 - 1) 1"
    by (simp add: parseFloat_def digitsVal_def digitsVal_replicate9)
  then show ?thesis
    by (simp only: numberValue_nines)
qed

lemma parsePrice_overflow: "parsePrice (Some (replicate 310 CHR ''9'')) = None"
proof -
  have "cleaned (replicate 310 CHR ''9'') = replicate 310 CHR ''9''"
    by (simp add: cleaned_def isDigit_def)
  then show ?thesis
    unfolding parsePrice_Some parseFloat_overflow by (simp add: parseFloat_overflow)
qed

subsection \<open>The contract\<close>

text \<open>
  C4. The normalizer deletes every character that is not a digit or a decimal point and parses
  what remains with \<open>parseFloat\<close>; it is a total function, so it never raises. A missing text,
  the empty text and a text without any digit give absent; a parse result that is not finite
  (\<open>NaN\<close> or \<open>+\<infinity>\<close>) gives absent. \<open>"$12.50"\<close> gives \<open>12.5\<close>, \<open>"12,50"\<close> gives \<open>1250\<close> (the comma is
  deleted), and \<open>"\<euro> 9.99"\<close> gives the Number \<open>9.99\<close>, that is the binary64 value nearest to
  \<open>999/100\<close>.
\<close>

theorem parsePrice_contract:
  "cleaned v = filter (\<lambda>c. c \<in> set ''0123456789.'') v
   \<and> parsePrice (Some v) = (case parseFloat (cleaned v) of Finite x \<Rightarrow> Some x | _ \<Rightarrow> None)
   \<and> parsePrice None = None
   \<and> parsePrice (Some []) = None
   \<and> ((\<forall>c\<in>set v. c \<notin> set ''0123456789'') \<longrightarrow> parsePrice (Some v) = None)
   \<and> (\<not> isFinite (parseFloat (cleaned v)) \<longrightarrow> parsePrice (Some v) = None)
   \<and> parsePrice (Some ''$12.50'') = Some (25 / 2)
   \<and> parsePrice (Some ''12,50'') = Some 1250
   \<and> parsePrice (Some ([CHR 0xE2, CHR 0x82, CHR 0xAC] @ '' 9.99''))
       = Some (5623870034678907 / 562949953421312)
   \<and> numberValue 999 100 = Finite (5623870034678907 / 562949953421312)"
proof -
  have "cleaned v = filter (\<lambda>c. c \<in> set ''0123456789.'') v"
    unfolding cleaned_def isDigit_def by (rule filter_cong) auto
  moreover have "(\<forall>c\<in>set v. c \<notin> set ''0123456789'') \<longrightarrow> parsePrice (Some v) = None"
    using parsePrice_no_digit [of v] by (simp add: isDigit_def)
  moreover have "\<not> isFinite (parseFloat (cleaned v)) \<longrightarrow> parsePrice (Some v) = None"
    by (simp add: parsePrice_Some isFinite_def split: number.splits)
  moreover have "parsePrice (Some []) = None"
    by (simp add: parsePrice_def)
  ultimately show ?thesis
    using parsePrice_Some [of v] parsePrice_dollar parsePrice_comma parsePrice_euro numberValue_9_99
    by simp
qed

theorem parsePrice_contract_witness:
  "parsePrice (Some ''N/A'') = None
   \<and> \<not> isFinite (parseFloat (cleaned ''.'')) \<and> parsePrice (Some ''.'') = None"
proof -
  have 1: "\<forall>c\<in>set ''N/A''. c \<notin> set ''0123456789''"
    by simp
  have 2: "\<not> isFinite (parseFloat (cleaned ''.''))"
    by (simp add: cleaned_def parseFloat_def isFinite_def)
  show ?thesis
    using 1 2 parsePrice_contract [of "''N/A''"] parsePrice_contract [of "''.''"] by blast
qed

text \<open>
  C5 (as stated, refuted). The remainder \<open>"1.2.3"\<close> has two decimal points and is not absent:
  \<open>parseFloat\<close> reads the longest prefix that is a decimal literal, \<open>"1.2"\<close>, and the result is the
  Number \<open>1.2\<close>.
\<close>

theorem parsePrice_multiple_points_counterexample:
  "cleaned ''1.2.3'' = ''1.2.3''
   \<and> parsePrice (Some ''1.2.3'') = Some (5404319552844595 / 4503599627370496)"
proof -
  have "cleaned ''1.2.3'' = ''1.2.3''"
    by (simp add: cleaned_def isDigit_def)
  moreover have "parseFloat ''1.2.3'' = numberValue 12 10"
    by (simp add: parse_eval)
  ultimately show ?thesis
    by (simp add: parsePrice_Some numberValue_1_2)
qed

lemma numberValue_not_NaN: "numberValue n d \<noteq> NaN"
  by (simp add: numberValue_def Let_def)

lemma parseFloat_one_dot:
  assumes "\<forall>c\<in>set ds1. isDigit c" "\<forall>c\<in>set ds2. isDigit c"
  shows "parseFloat (ds1 @ CHR ''.'' # ds2)
           = (if ds1 = [] \<and> ds2 = [] then NaN
              else numberValue (digitsVal (ds1 @ ds2)) (10 ^ length ds2))"
proof -
  have 1: "takeWhile isDigit (ds1 @ CHR ''.'' # ds2) = ds1"
    using assms(1) by (simp add: takeWhile_append2)
  have 2: "dropWhile isDigit (ds1 @ CHR ''.'' # ds2) = CHR ''.'' # ds2"
    using assms(1) by (simp add: dropWhile_append2)
  have 3: "takeWhile isDigit ds2 = ds2"
    using assms(2) by simp
  show ?thesis
    by (simp add: parseFloat_def 1 2 3)
qed

text \<open>
  C5 (amended). A remainder that \<open>parseFloat\<close> cannot read at all (the result is \<open>NaN\<close>) gives
  absent. A remainder with a second decimal point is read up to that point: the normalizer
  returns exactly what it returns for the text before the second point. That is absent in two
  cases only: no digit stands before the second point (\<open>".."\<close>, \<open>"..5"\<close>), or the digits before
  it denote a value that overflows to \<open>+\<infinity>\<close>; in every other case it is the number read from
  the digits before the second point.
\<close>

theorem parsePrice_malformed:
  assumes "\<forall>c\<in>set ds1. isDigit c" and "\<forall>c\<in>set ds2. isDigit c"
  shows "(parseFloat (cleaned v) = NaN \<longrightarrow> parsePrice (Some v) = None)
       \<and> (cleaned v = ds1 @ CHR ''.'' # ds2 @ CHR ''.'' # rest \<longrightarrow>
            parsePrice (Some v) = parsePrice (Some (ds1 @ CHR ''.'' # ds2))
            \<and> (parsePrice (Some v) = None \<longleftrightarrow>
                  (ds1 = [] \<and> ds2 = [])
                  \<or> numberValue (digitsVal (ds1 @ ds2)) (10 ^ length ds2) = Infinity))"
proof -
  have cl: "cleaned (ds1 @ CHR ''.'' # ds2) = ds1 @ CHR ''.'' # ds2"
    using assms by (simp add: cleaned_def)
  have eq: "parsePrice (Some v) = parsePrice (Some (ds1 @ CHR ''.'' # ds2))"
    if "cleaned v = ds1 @ CHR ''.'' # ds2 @ CHR ''.'' # rest"
    using that parseFloat_second_dot [OF assms, of rest] by (simp add: parsePrice_Some cl)
  have "(parsePrice (Some (ds1 @ CHR ''.'' # ds2)) = None)
      = ((ds1 = [] \<and> ds2 = []) \<or> numberValue (digitsVal (ds1 @ ds2)) (10 ^ length ds2) = Infinity)"
    using numberValue_not_NaN [of "digitsVal (ds1 @ ds2)" "10 ^ length ds2"]
    by (simp add: parsePrice_Some cl parseFloat_one_dot [OF assms] split: number.splits)
  with eq show ?thesis
    by (auto simp: parsePrice_Some)
qed

theorem parsePrice_malformed_witness:
  "cleaned ''1.2.3'' = ''1'' @ CHR ''.'' # ''2'' @ CHR ''.'' # ''3''
   \<and> parsePrice (Some ''1.2.3'') = parsePrice (Some ''1.2'')
   \<and> parsePrice (Some ''1.2.3'') \<noteq> None
   \<and> parseFloat (cleaned ''..5'') = NaN \<and> parsePrice (Some ''..5'') = None
   \<and> parsePrice (Some (replicate 310 CHR ''9'' @ ''..5'')) = None"
proof -
  have 0: "\<forall>c\<in>set ''''. isDigit c"
    by simp
  have 1: "\<forall>c\<in>set ''1''. isDigit c" and 2: "\<forall>c\<in>set ''2''. isDigit c"
    by (simp_all add: isDigit_def)
  have 3: "cleaned ''1.2.3'' = ''1'' @ CHR ''.'' # ''2'' @ CHR ''.'' # ''3''"
    by (simp add: cleaned_def isDigit_def)
  have 4: "parseFloat (cleaned ''..5'') = NaN"
    by (simp add: cleaned_def parse_eval)
  have 5: "parsePrice (Some ''1.2'') \<noteq> None"
    by (simp add: parsePrice_1_2)
  have 9: "\<forall>c\<in>set (replicate 310 CHR ''9''). isDigit c"
    by (simp add: isDigit_def)
  have 6: "cleaned (replicate 310 CHR ''9'' @ ''..5'')
         = replicate 310 CHR ''9'' @ CHR ''.'' # [] @ CHR ''.'' # ''5''"
    by (simp add: cleaned_def isDigit_def)
  have a: "digitsVal (replicate 310 CHR ''9'' @ []) = 10 ^ 310 - 1"
    by (simp add: digitsVal_def digitsVal_replicate9)
  have b: "(10::nat) ^ length ([] :: string) = 1"
    by simp
  have 7: "numberValue (digitsVal (replicate 310 CHR ''9'' @ [])) (10 ^ length ([] :: string)) = Infinity"
    unfolding a b by (rule numberValue_nines)
  from parsePrice_malformed [OF 9 0, of "replicate 310 CHR ''9'' @ ''..5''" "''5''"] 6 7
  have 8: "parsePrice (Some (replicate 310 CHR ''9'' @ ''..5'')) = None"
    by blast
  show ?thesis
    using 3 4 5 8 parsePrice_malformed [OF 1 2, of "''1.2.3''" "''3''"]
      parsePrice_malformed [OF 1 2, of "''..5''"]
    by simp
qed

section \<open>Maps as association lists and the grouping loop\<close>

lemma mapGetOr_update:
  "mapGetOr (AList.update k v m) k' d = (if k' = k then v else mapGetOr m k' d)"
  by (simp add: mapGetOr_def AList.update_conv')

lemma keys_update:
  "map fst (AList.update k v m) = (if k \<in> fst ` set m then map fst m else map fst m @ [k])"
  by (simp add: AList.update_keys)

lemma alist_repr:
  assumes "distinct (map fst m)"
  shows "m = map (\<lambda>k. (k, mapGetOr m k d)) (map fst m)"
proof -
  have "(fst e, mapGetOr m (fst e) d) = e" if "e \<in> set m" for e
  proof -
    from that have "(fst e, snd e) \<in> set m" by simp
    with assms have "map_of m (fst e) = Some (snd e)"
      by (simp only: map_of_eq_Some_iff)
    then show ?thesis by (simp add: mapGetOr_def)
  qed
  then have "map (\<lambda>e. (fst e, mapGetOr m (fst e) d)) m = m"
    by (simp add: map_idI)
  then show ?thesis by (simp add: comp_def)
qed

lemma groupStep_None: "place r = None \<Longrightarrow> groupStep place item m r = m"
  by (simp add: groupStep_def)

lemma groupStep_Some: "place r = Some s \<Longrightarrow> groupStep place item m r = appendItem m s (item r)"
  by (simp add: groupStep_def)

lemma mapGetOr_appendItem:
  "mapGetOr (appendItem m s it) t [] = (if t = s then mapGetOr m s [] @ [it] else mapGetOr m t [])"
  by (simp add: appendItem_def mapGetOr_update)

lemma keys_appendItem:
  "map fst (appendItem m s it) = (if s \<in> fst ` set m then map fst m else map fst m @ [s])"
  by (simp add: appendItem_def keys_update)

lemma groupFold_lookup:
  "mapGetOr (foldl (groupStep place item) m rows) s []
     = mapGetOr m s [] @ map item (filter (\<lambda>r. place r = Some s) rows)"
proof (induction rows arbitrary: m)
  case Nil
  show ?case by simp
next
  case (Cons r rows)
  show ?case
    by (cases "place r") (simp_all add: Cons groupStep_None groupStep_Some mapGetOr_appendItem)
qed

lemma dom_appendItem: "fst ` set (appendItem m s it) = insert s (fst ` set m)"
  by (simp add: appendItem_def AList.dom_update)

lemma groupFold_keys_set:
  "fst ` set (foldl (groupStep place item) m rows)
     = fst ` set m \<union> {s. \<exists>r\<in>set rows. place r = Some s}"
proof (induction rows arbitrary: m)
  case Nil
  show ?case by simp
next
  case (Cons r rows)
  show ?case
    by (cases "place r") (auto simp: Cons groupStep_None groupStep_Some dom_appendItem)
qed

lemma groupFold_keys_distinct:
  "distinct (map fst m) \<Longrightarrow> distinct (map fst (foldl (groupStep place item) m rows))"
proof (induction rows arbitrary: m)
  case Nil
  then show ?case by simp
next
  case (Cons r rows)
  have "distinct (map fst (groupStep place item m r))"
    using Cons.prems by (cases "place r") (auto simp: groupStep_def keys_appendItem)
  then show ?case by (simp add: Cons.IH)
qed

lemma groupFold_keys_same:
  assumes "\<forall>r\<in>set rows. \<forall>s. place r = Some s \<longrightarrow> s \<in> fst ` set m"
  shows "map fst (foldl (groupStep place item) m rows) = map fst m"
  using assms
proof (induction rows arbitrary: m)
  case Nil
  then show ?case by simp
next
  case (Cons r rows)
  have 1: "map fst (groupStep place item m r) = map fst m"
    using Cons.prems by (cases "place r") (auto simp: groupStep_def keys_appendItem)
  then have "fst ` set (groupStep place item m r) = fst ` set m"
    by (metis set_map)
  with Cons.prems
  have "\<forall>r'\<in>set rows. \<forall>s. place r' = Some s \<longrightarrow> s \<in> fst ` set (groupStep place item m r)"
    by auto
  from Cons.IH [OF this] 1 show ?case by simp
qed

lemma allItems_appendItem:
  "mset (concat (map snd (appendItem m s it))) = mset (concat (map snd m)) + {#it#}"
proof (induction m)
  case Nil
  show ?case by (simp add: appendItem_def mapGetOr_def)
next
  case (Cons p m)
  show ?case
  proof (cases "fst p = s")
    case True
    then show ?thesis by (cases p) (simp add: appendItem_def mapGetOr_def)
  next
    case False
    then have "mapGetOr (p # m) s [] = mapGetOr m s []"
      by (cases p) (simp add: mapGetOr_def)
    with False Cons show ?thesis
      by (simp add: appendItem_def)
  qed
qed

lemma groupFold_allItems:
  "mset (concat (map snd (foldl (groupStep place item) m rows)))
     = mset (concat (map snd m)) + mset (map item (filter (\<lambda>r. place r \<noteq> None) rows))"
proof (induction rows arbitrary: m)
  case Nil
  show ?case by simp
next
  case (Cons r rows)
  show ?case
    by (cases "place r") (simp_all add: Cons groupStep_None groupStep_Some allItems_appendItem)
qed

section \<open>The inner loop of Policy A\<close>

lemma find_append:
  "find P (xs @ ys) = (case find P xs of None \<Rightarrow> find P ys | Some x \<Rightarrow> Some x)"
  by (induction xs) auto

lemma priceAt_Some_key: "priceAt row s = Some p \<Longrightarrow> s \<in> set (storeKeys row)"
proof -
  assume "priceAt row s = Some p"
  then have "map_of (prices_by_store row) s \<noteq> None"
    by (cases "map_of (prices_by_store row) s") (simp_all add: priceAt_def priceTextAt_def cellAt_def)
  then show ?thesis
    by (metis storeKeys_def map_of_eq_None_iff set_map)
qed

lemma scan_not_priced: "priceAt row k = None \<Longrightarrow> scanStore row b k = b"
  by (simp add: scanStore_def)

lemma scan_first: "priceAt row k = Some q \<Longrightarrow>
  scanStore row (None, None, None) k = (Some k, Some q, priceTextAt row k)"
  by (simp add: scanStore_def)

lemma scan_next: "priceAt row k = Some q \<Longrightarrow>
  scanStore row (Some s, Some p, t) k = (if q < p then (Some k, Some q, priceTextAt row k) else (Some s, Some p, t))"
  by (simp add: scanStore_def)

lemma scan_result:
  "((\<forall>s\<in>set ks. priceAt row s = None) \<longrightarrow> foldl (scanStore row) (None, None, None) ks = (None, None, None))
   \<and> ((\<exists>s\<in>set ks. priceAt row s \<noteq> None) \<longrightarrow>
        (\<exists>s p. foldl (scanStore row) (None, None, None) ks = (Some s, Some p, priceTextAt row s)
           \<and> find (\<lambda>t. priceAt row t = Some p) ks = Some s
           \<and> (\<forall>t\<in>set ks. \<forall>q. priceAt row t = Some q \<longrightarrow> p \<le> q)))"
proof (induction ks rule: rev_induct)
  case Nil
  show ?case by simp
next
  case (snoc k ks)
  let ?b = "foldl (scanStore row) (None, None, None) ks"
  show ?case
  proof (cases "priceAt row k")
    case None
    then show ?thesis
      using snoc by (auto simp: scan_not_priced find_append)
  next
    case (Some q)
    show ?thesis
    proof (cases "\<forall>s\<in>set ks. priceAt row s = None")
      case True
      with snoc have b: "?b = (None, None, None)" by simp
      from True have "find (\<lambda>t. priceAt row t = Some q) ks = None"
        by (auto simp: find_None_iff)
      with Some True b show ?thesis
        by (auto simp: scan_first find_append)
    next
      case False
      with snoc obtain s p where b: "?b = (Some s, Some p, priceTextAt row s)"
        and f: "find (\<lambda>t. priceAt row t = Some p) ks = Some s"
        and m: "\<forall>t\<in>set ks. \<forall>q. priceAt row t = Some q \<longrightarrow> p \<le> q"
        by auto
      show ?thesis
      proof (cases "q < p")
        case True
        with m have "find (\<lambda>t. priceAt row t = Some q) ks = None"
          by (fastforce simp: find_None_iff)
        with True Some b m show ?thesis
          by (fastforce simp: scan_next find_append)
      next
        case False
        with Some b f m show ?thesis
          by (fastforce simp: scan_next find_append)
      qed
    qed
  qed
qed

lemma bestOf_None: "(bestStoreOf row = None) = (\<forall>s. priceAt row s = None)"
proof
  assume "bestStoreOf row = None"
  with scan_result [of "storeKeys row" row] have "\<forall>s\<in>set (storeKeys row). priceAt row s = None"
    by (auto simp: bestOf_def bestStoreOf_def)
  then show "\<forall>s. priceAt row s = None"
    using priceAt_Some_key by (metis option.exhaust)
next
  assume "\<forall>s. priceAt row s = None"
  with scan_result [of "storeKeys row" row] show "bestStoreOf row = None"
    by (simp add: bestOf_def bestStoreOf_def)
qed

lemma bestOf_Some:
  assumes "bestStoreOf row = Some s"
  shows "\<exists>p. bestOf row = (Some s, Some p, priceTextAt row s)
           \<and> find (\<lambda>t. priceAt row t = Some p) (storeKeys row) = Some s
           \<and> priceAt row s = Some p
           \<and> (\<forall>t q. priceAt row t = Some q \<longrightarrow> p \<le> q)"
proof -
  from assms have "\<not> (\<forall>t. priceAt row t = None)"
    by (simp add: bestOf_None [symmetric])
  then obtain t q where "priceAt row t = Some q"
    by auto
  then have "\<exists>t\<in>set (storeKeys row). priceAt row t \<noteq> None"
    using priceAt_Some_key [of row t q] by auto
  with scan_result [of "storeKeys row" row] obtain s' p
    where b: "bestOf row = (Some s', Some p, priceTextAt row s')"
      and f: "find (\<lambda>t. priceAt row t = Some p) (storeKeys row) = Some s'"
      and m: "\<forall>t\<in>set (storeKeys row). \<forall>q. priceAt row t = Some q \<longrightarrow> p \<le> q"
    unfolding bestOf_def by blast
  from b assms have "s' = s" by (simp add: bestStoreOf_def)
  moreover from f have "priceAt row s' = Some p"
    by (auto simp: find_Some_iff)
  moreover from m have "\<forall>t q. priceAt row t = Some q \<longrightarrow> p \<le> q"
    using priceAt_Some_key by blast
  ultimately show ?thesis using b f by blast
qed

lemma bestOf_iff:
  "(bestStoreOf row = Some s)
     = (\<exists>p. find (\<lambda>t. priceAt row t = Some p) (storeKeys row) = Some s
            \<and> (\<forall>t q. priceAt row t = Some q \<longrightarrow> p \<le> q))"
proof
  assume "bestStoreOf row = Some s"
  from bestOf_Some [OF this] show "\<exists>p. find (\<lambda>t. priceAt row t = Some p) (storeKeys row) = Some s
            \<and> (\<forall>t q. priceAt row t = Some q \<longrightarrow> p \<le> q)"
    by blast
next
  assume "\<exists>p. find (\<lambda>t. priceAt row t = Some p) (storeKeys row) = Some s
            \<and> (\<forall>t q. priceAt row t = Some q \<longrightarrow> p \<le> q)"
  then obtain p where f: "find (\<lambda>t. priceAt row t = Some p) (storeKeys row) = Some s"
    and m: "\<forall>t q. priceAt row t = Some q \<longrightarrow> p \<le> q"
    by blast
  from f have ps: "priceAt row s = Some p"
    by (auto simp: find_Some_iff)
  then have "bestStoreOf row \<noteq> None"
    by (auto simp: bestOf_None)
  then obtain s' where s': "bestStoreOf row = Some s'"
    by blast
  from bestOf_Some [OF this] obtain p' where
    f': "find (\<lambda>t. priceAt row t = Some p') (storeKeys row) = Some s'"
    and ps': "priceAt row s' = Some p'"
    and m': "\<forall>t q. priceAt row t = Some q \<longrightarrow> p' \<le> q"
    by blast
  from m ps' m' ps have "p = p'" by fastforce
  with f f' have "s' = s" by simp
  with s' show "bestStoreOf row = Some s" by simp
qed

section \<open>The outer loop of Policy A\<close>

lemma find_unique:
  assumes "x \<in> set xs" "P x" "\<forall>y. P y \<longrightarrow> y = x"
  shows "find P xs = Some x"
proof -
  from assms(1,2) have "find P xs \<noteq> None"
    by (auto simp: find_None_iff)
  then obtain y where y: "find P xs = Some y" by blast
  then have "P y" by (auto simp: find_Some_iff)
  with assms(3) y show ?thesis by simp
qed

lemma mset_concat_map_cong:
  assumes "mset xs = mset ys"
  shows "mset (concat (map f xs)) = mset (concat (map f ys))"
proof -
  have "mset (concat (map f zs)) = sum_mset (image_mset (\<lambda>z. mset (f z)) (mset zs))" for zs
    by (induction zs) simp_all
  with assms show ?thesis by simp
qed

lemma concat_filter_nonempty: "concat (map f (filter (\<lambda>x. f x \<noteq> []) xs)) = concat (map f xs)"
  by (induction xs) simp_all

lemma cheapestStep_groupStep: "cheapestStep = groupStep placedCheapest itemCheapest"
proof (intro ext)
  fix m row
  obtain bs bp bt where b: "bestOf row = (bs, bp, bt)"
    by (cases "bestOf row") auto
  show "cheapestStep m row = groupStep placedCheapest itemCheapest m row"
    by (cases bs) (simp_all add: b cheapestStep_def groupStep_def placedCheapest_def
        itemCheapest_def bestStoreOf_def)
qed

lemma placedCheapest_iff: "(placedCheapest row = Some s) = (bestStoreOf row = Some s \<and> s \<noteq> [])"
  by (auto simp: placedCheapest_def split: option.splits)

lemma placedCheapest_None_iff:
  "(placedCheapest row = None) = (bestStoreOf row = None \<or> bestStoreOf row = Some [])"
  by (auto simp: placedCheapest_def split: option.splits)

lemma itemCheapest_eq:
  assumes "bestStoreOf row = Some s"
  shows "itemCheapest row = mkItem row s (priceTextAt row s) (priceAt row s)"
proof -
  from bestOf_Some [OF assms] obtain p where
    "bestOf row = (Some s, Some p, priceTextAt row s)" "priceAt row s = Some p"
    by blast
  then show ?thesis by (simp add: itemCheapest_def)
qed

lemma item_key_mkItem [simp]: "item_product_key (mkItem row s t n) = product_key row"
  by (simp add: mkItem_def)

lemma item_key_itemCheapest [simp]: "item_product_key (itemCheapest row) = product_key row"
  by (simp add: itemCheapest_def split: prod.splits)

lemma store_toGroup [simp]: "store (toGroup e) = fst e" and items_toGroup [simp]: "items (toGroup e) = snd e"
  by (simp_all add: toGroup_def)

text \<open>The map \<open>byStore\<close> of Policy A when the outer loop ends.\<close>

lemma cheapest_byStore:
  defines "byStore rows \<equiv> foldl cheapestStep [] rows"
  shows "distinct (map fst (byStore rows))"
    and "fst ` set (byStore rows) = {s. s \<noteq> [] \<and> (\<exists>r\<in>set rows. bestStoreOf r = Some s)}"
    and "e \<in> set (byStore rows) \<Longrightarrow>
          snd e = map itemCheapest (filter (\<lambda>r. bestStoreOf r = Some (fst e)) rows)"
proof -
  show d: "distinct (map fst (byStore rows))"
    unfolding byStore_def cheapestStep_groupStep by (rule groupFold_keys_distinct) simp
  show k: "fst ` set (byStore rows) = {s. s \<noteq> [] \<and> (\<exists>r\<in>set rows. bestStoreOf r = Some s)}"
    unfolding byStore_def cheapestStep_groupStep groupFold_keys_set
    by (auto simp: placedCheapest_iff)
  assume e: "e \<in> set (byStore rows)"
  with k have ne: "fst e \<noteq> []" by auto
  from e have "(fst e, snd e) \<in> set (byStore rows)" by simp
  with d have "map_of (byStore rows) (fst e) = Some (snd e)"
    by (simp only: map_of_eq_Some_iff)
  then have "snd e = mapGetOr (byStore rows) (fst e) []"
    by (simp add: mapGetOr_def)
  also have "\<dots> = map itemCheapest (filter (\<lambda>r. placedCheapest r = Some (fst e)) rows)"
    unfolding byStore_def cheapestStep_groupStep groupFold_lookup by (simp add: mapGetOr_def)
  also have "\<dots> = map itemCheapest (filter (\<lambda>r. bestStoreOf r = Some (fst e)) rows)"
    using ne by (simp add: placedCheapest_iff)
  finally show "snd e = map itemCheapest (filter (\<lambda>r. bestStoreOf r = Some (fst e)) rows)" .
qed

lemma cheapestGroups_set:
  "set (cheapestGroups ck rows) = toGroup ` set (foldl cheapestStep [] rows)"
  by (simp add: cheapestGroups_def)

lemma cheapestGroups_sorted: "sorted (map (\<lambda>g. ck (store g)) (cheapestGroups ck rows))"
  unfolding cheapestGroups_def by (rule sorted_sort_key)

lemma cheapestGroups_stores_mset:
  "mset (map store (cheapestGroups ck rows)) = mset (map fst (foldl cheapestStep [] rows))"
  by (simp add: cheapestGroups_def multiset.map_comp comp_def)

lemma cheapestGroups_distinct: "distinct (map store (cheapestGroups ck rows))"
  using cheapestGroups_stores_mset [of ck rows] cheapest_byStore(1) [of rows]
  by (metis mset_eq_imp_distinct_iff)

lemma cheapestGroups_stores:
  "set (map store (cheapestGroups ck rows))
     = {s. s \<noteq> [] \<and> (\<exists>r\<in>set rows. bestStoreOf r = Some s)}"
proof -
  have "set (map store (cheapestGroups ck rows)) = fst ` set (foldl cheapestStep [] rows)"
    by (simp add: cheapestGroups_set image_image)
  then show ?thesis by (simp only: cheapest_byStore(2))
qed

lemma cheapestGroups_items:
  assumes "g \<in> set (cheapestGroups ck rows)"
  shows "items g = map (\<lambda>r. mkItem r (store g) (priceTextAt r (store g)) (priceAt r (store g)))
                       (filter (\<lambda>r. bestStoreOf r = Some (store g)) rows)"
proof -
  from assms obtain e where e: "e \<in> set (foldl cheapestStep [] rows)" and g: "g = toGroup e"
    by (auto simp: cheapestGroups_set)
  from cheapest_byStore(3) [OF e]
  have "items g = map itemCheapest (filter (\<lambda>r. bestStoreOf r = Some (store g)) rows)"
    by (simp add: g)
  also have "\<dots> = map (\<lambda>r. mkItem r (store g) (priceTextAt r (store g)) (priceAt r (store g)))
                       (filter (\<lambda>r. bestStoreOf r = Some (store g)) rows)"
    by (rule map_cong) (simp_all add: itemCheapest_eq)
  finally show ?thesis .
qed

lemma cheapestGroups_keys:
  "mset (groupedKeys (cheapestGroups ck rows))
     = mset (map product_key (filter (\<lambda>r. placedCheapest r \<noteq> None) rows))"
proof -
  have "mset (concat (map items (cheapestGroups ck rows)))
      = mset (concat (map items (map toGroup (foldl cheapestStep [] rows))))"
    by (rule mset_concat_map_cong) (simp add: cheapestGroups_def)
  also have "\<dots> = mset (concat (map snd (foldl cheapestStep [] rows)))"
    by (simp add: comp_def)
  also have "\<dots> = mset (map itemCheapest (filter (\<lambda>r. placedCheapest r \<noteq> None) rows))"
    unfolding cheapestStep_groupStep groupFold_allItems by simp
  finally have "image_mset item_product_key (mset (concat (map items (cheapestGroups ck rows))))
      = image_mset item_product_key
          (mset (map itemCheapest (filter (\<lambda>r. placedCheapest r \<noteq> None) rows)))"
    by simp
  then show ?thesis
    by (simp add: groupedKeys_def comp_def multiset.map_comp)
qed

subsection \<open>Evaluation on concrete rows\<close>

lemmas row_eval = storeKeys_def priceAt_def priceTextAt_def cellAt_def mkRow_def mkCell_def

lemmas cheapest_eval = cheapestGroups_def cheapestStep_def bestOf_def scanStore_def
  appendItem_def mapGetOr_def mkItem_def toGroup_def codeUnits_def

section \<open>The store list, the ranking and the loop of Policy B\<close>

lemma setAdd_distinct: "distinct s \<Longrightarrow> distinct (setAdd s x)"
  by (simp add: setAdd_def)

lemma setAdd_set [simp]: "set (setAdd s x) = insert x (set s)"
  by (auto simp: setAdd_def)

lemma addKeys_distinct:
  "distinct s \<Longrightarrow> distinct (foldl (\<lambda>s n. if n \<noteq> [] then setAdd s n else s) s ks)"
  by (induction ks arbitrary: s) (simp_all add: setAdd_distinct)

lemma addKeys_set:
  "set (foldl (\<lambda>s n. if n \<noteq> [] then setAdd s n else s) s ks) = set s \<union> {n \<in> set ks. n \<noteq> []}"
  by (induction ks arbitrary: s) auto

lemma storeSet_fold_distinct:
  "distinct s \<Longrightarrow>
   distinct (foldl (\<lambda>s row. foldl (\<lambda>s n. if n \<noteq> [] then setAdd s n else s) s (storeKeys row)) s rows)"
  by (induction rows arbitrary: s) (simp_all add: addKeys_distinct)

lemma storeSet_fold_set:
  "set (foldl (\<lambda>s row. foldl (\<lambda>s n. if n \<noteq> [] then setAdd s n else s) s (storeKeys row)) s rows)
     = set s \<union> {n. n \<noteq> [] \<and> (\<exists>row\<in>set rows. n \<in> set (storeKeys row))}"
  by (induction rows arbitrary: s) (auto simp: addKeys_set)

lemma storeSet_distinct: "distinct (storeSet rows)"
  unfolding storeSet_def by (rule storeSet_fold_distinct) simp

lemma storeSet_set:
  "set (storeSet rows) = {n. n \<noteq> [] \<and> (\<exists>row\<in>set rows. n \<in> set (storeKeys row))}"
  unfolding storeSet_def by (simp add: storeSet_fold_set)

lemma stores_distinct: "distinct (stores ck rows)"
  by (simp add: stores_def storeSet_distinct)

lemma stores_set:
  "set (stores ck rows) = {n. n \<noteq> [] \<and> (\<exists>row\<in>set rows. n \<in> set (storeKeys row))}"
  by (simp add: stores_def storeSet_set)

lemma stores_sorted: "sorted (map ck (stores ck rows))"
  unfolding stores_def by (rule sorted_sort_key)

text \<open>The counting map.\<close>

lemma count_init: "mapGetOr (foldl (\<lambda>m s. AList.update s 0 m) m sts) t (0::nat) = (if t \<in> set sts then 0 else mapGetOr m t 0)"
  by (induction sts arbitrary: m) (auto simp: mapGetOr_update)

lemma count_row:
  assumes "distinct sts"
  shows "mapGetOr (foldl (\<lambda>m s. if P s then AList.update s (mapGetOr m s 0 + 1) m else m) m sts) t (0::nat)
           = mapGetOr m t 0 + (if t \<in> set sts \<and> P t then 1 else 0)"
  using assms
proof (induction sts arbitrary: m)
  case Nil
  show ?case by simp
next
  case (Cons s sts)
  then show ?case by (auto simp: mapGetOr_update)
qed

lemma count_rows:
  assumes "distinct sts"
  shows "mapGetOr (foldl (\<lambda>m row. foldl (\<lambda>m s. if priceAt row s \<noteq> None
                                             then AList.update s (mapGetOr m s 0 + 1) m else m) m sts)
                         m rows) t 0
           = mapGetOr m t 0 + (if t \<in> set sts then coverage rows t else 0)"
proof (induction rows arbitrary: m)
  case Nil
  show ?case by (simp add: coverage_def)
next
  case (Cons row rows)
  show ?case
    by (simp add: Cons count_row [OF assms] coverage_def del: not_None_eq)
qed

lemma availabilityCount_eq:
  "distinct sts \<Longrightarrow>
   mapGetOr (availabilityCount sts rows) t 0 = (if t \<in> set sts then coverage rows t else 0)"
  by (simp add: availabilityCount_def count_rows count_init del: not_None_eq)
    (simp add: mapGetOr_def)

lemma rankedStoresOf_mset: "mset (rankedStoresOf ck sts rows) = mset sts"
  by (simp add: rankedStoresOf_def)

lemma rankedStoresOf_sorted:
  assumes "distinct sts"
  shows "sorted_wrt (\<lambda>a b. coverage rows b < coverage rows a
                          \<or> (coverage rows a = coverage rows b \<and> ck a \<le> ck b))
                    (rankedStoresOf ck sts rows)"
proof -
  let ?f = "\<lambda>s. (- int (mapGetOr (availabilityCount sts rows) s 0), ck s)"
  let ?g = "\<lambda>s. (- int (coverage rows s), ck s)"
  let ?R = "rankedStoresOf ck sts rows"
  have "sorted (map ?f ?R)"
    unfolding rankedStoresOf_def Let_def by (rule sorted_sort_key)
  moreover have "map ?f ?R = map ?g ?R"
    by (rule map_cong) (simp_all add: rankedStoresOf_def availabilityCount_eq [OF assms])
  ultimately have "sorted_wrt (\<lambda>a b. ?g a \<le> ?g b) ?R"
    by (simp add: sorted_map)
  then show ?thesis
    by (rule sorted_wrt_mono_rel [rotated]) auto
qed

lemma rankedStores_mset: "mset (rankedStores ck rows) = mset (stores ck rows)"
  by (simp add: rankedStores_def rankedStoresOf_mset)

lemma rankedStores_distinct: "distinct (rankedStores ck rows)"
  using rankedStores_mset [of ck rows] stores_distinct [of ck rows]
  by (metis mset_eq_imp_distinct_iff)

lemma rankedStores_set: "set (rankedStores ck rows) = set (stores ck rows)"
  using rankedStores_mset [of ck rows] by (metis set_mset_mset)

lemma rankedStores_sorted:
  "sorted_wrt (\<lambda>a b. coverage rows b < coverage rows a
                    \<or> (coverage rows a = coverage rows b \<and> ck a \<le> ck b))
              (rankedStores ck rows)"
  unfolding rankedStores_def by (rule rankedStoresOf_sorted) (rule stores_distinct)


text \<open>The map \<open>byStore\<close> of Policy B.\<close>

lemma update_new: "k \<notin> fst ` set m \<Longrightarrow> AList.update k v m = m @ [(k, v)]"
  by (induction m) auto

lemma init_alist:
  "distinct xs \<Longrightarrow> set xs \<inter> fst ` set m = {} \<Longrightarrow>
   foldl (\<lambda>m s. AList.update s v m) m xs = m @ map (\<lambda>s. (s, v)) xs"
proof (induction xs arbitrary: m)
  case Nil
  show ?case by simp
next
  case (Cons x xs)
  from Cons.prems have x: "x \<notin> fst ` set m" and d: "distinct xs"
    and i: "set xs \<inter> fst ` set (m @ [(x, v)]) = {}"
    by auto
  show ?case
    by (simp add: update_new [OF x] Cons.IH [OF d i])
qed

lemma availabilityStep_groupStep:
  "availabilityStep ranked = groupStep (placedAvailable ranked) (itemAvailable ranked)"
proof (intro ext)
  fix m row
  show "availabilityStep ranked m row
          = groupStep (placedAvailable ranked) (itemAvailable ranked) m row"
    by (cases "chosenStore ranked row")
       (simp_all add: availabilityStep_def groupStep_def placedAvailable_def itemAvailable_def)
qed

lemma chosenStore_in: "chosenStore ranked row = Some s \<Longrightarrow> s \<in> set ranked"
  by (auto simp: chosenStore_def find_Some_iff)

lemma placedAvailable_in: "placedAvailable ranked row = Some s \<Longrightarrow> s \<in> set ranked"
  by (auto simp: placedAvailable_def chosenStore_in split: option.splits if_splits)

lemma placedAvailable_eq:
  "[] \<notin> set ranked \<Longrightarrow> placedAvailable ranked row = chosenStore ranked row"
  by (auto simp: placedAvailable_def dest: chosenStore_in split: option.splits)

lemma itemAvailable_eq:
  "chosenStore ranked row = Some s \<Longrightarrow>
   itemAvailable ranked row = mkItem row s (priceTextAt row s) (priceAt row s)"
  by (simp add: itemAvailable_def)

lemma item_key_itemAvailable [simp]: "item_product_key (itemAvailable ranked row) = product_key row"
  by (simp add: itemAvailable_def split: option.splits)

lemma availability_byStore:
  assumes "distinct ranked"
  defines "byStore \<equiv> foldl (availabilityStep ranked)
                            (foldl (\<lambda>m s. AList.update s [] m) [] ranked)"
  shows "byStore rows
           = map (\<lambda>s. (s, map (itemAvailable ranked)
                              (filter (\<lambda>r. placedAvailable ranked r = Some s) rows))) ranked"
proof -
  let ?m0 = "map (\<lambda>s. (s, [])) ranked :: (string \<times> GroupedItem list) list"
  have m0: "foldl (\<lambda>m s. AList.update s [] m) [] ranked = ?m0"
    using init_alist [OF assms(1), of "[]" "[]"] by simp
  have k0: "map fst ?m0 = ranked"
    by (simp add: comp_def)
  have b: "byStore rows = foldl (groupStep (placedAvailable ranked) (itemAvailable ranked)) ?m0 rows"
    by (simp add: byStore_def m0 availabilityStep_groupStep)
  have "\<forall>r\<in>set rows. \<forall>s. placedAvailable ranked r = Some s \<longrightarrow> s \<in> fst ` set ?m0"
    using placedAvailable_in by (force simp: image_image)
  then have keys: "map fst (byStore rows) = ranked"
    unfolding b by (simp only: groupFold_keys_same k0)
  have look: "mapGetOr (byStore rows) s []
      = map (itemAvailable ranked) (filter (\<lambda>r. placedAvailable ranked r = Some s) rows)" for s
  proof -
    have "mapGetOr ?m0 s [] = []"
      by (simp add: mapGetOr_def map_of_map_restrict restrict_map_def)
    then show ?thesis
      unfolding b groupFold_lookup by simp
  qed
  from keys assms(1) have "distinct (map fst (byStore rows))"
    by simp
  from alist_repr [OF this, of "[]"] show ?thesis
    by (simp add: keys look)
qed

lemma availabilityGroupsOf_eq:
  fixes ck :: "string \<Rightarrow> 'k::linorder" and rows :: "ApiCompareRow list"
  assumes "distinct sts" and "[] \<notin> set sts"
  defines "R \<equiv> rankedStoresOf ck sts rows"
  shows "availabilityGroupsOf ck sts rows
     = map (\<lambda>s. \<lparr>store = s,
                 items = map (\<lambda>r. mkItem r s (priceTextAt r s) (priceAt r s))
                             (filter (\<lambda>r. find (\<lambda>t. priceAt r t \<noteq> None) R = Some s) rows)\<rparr>)
           (filter (\<lambda>s. \<exists>r\<in>set rows. find (\<lambda>t. priceAt r t \<noteq> None) R = Some s) R)"
proof -
  have dR: "distinct R"
    using assms(1) rankedStoresOf_mset [of ck sts rows] unfolding R_def
    by (metis mset_eq_imp_distinct_iff)
  have nR: "[] \<notin> set R"
    using assms(2) rankedStoresOf_mset [of ck sts rows] unfolding R_def
    by (metis set_mset_mset)
  let ?its = "\<lambda>s. map (itemAvailable R) (filter (\<lambda>r. placedAvailable R r = Some s) rows)"
  let ?its' = "\<lambda>s. map (\<lambda>r. mkItem r s (priceTextAt r s) (priceAt r s))
                       (filter (\<lambda>r. find (\<lambda>t. priceAt r t \<noteq> None) R = Some s) rows)"
  have its: "?its s = ?its' s" for s
  proof -
    have "?its s = map (itemAvailable R) (filter (\<lambda>r. chosenStore R r = Some s) rows)"
      by (simp add: placedAvailable_eq [OF nR])
    also have "\<dots> = map (\<lambda>r. mkItem r s (priceTextAt r s) (priceAt r s))
                         (filter (\<lambda>r. chosenStore R r = Some s) rows)"
      by (rule map_cong) (simp_all add: itemAvailable_eq)
    finally show ?thesis
      by (simp add: chosenStore_def)
  qed
  have ne: "(?its' s \<noteq> []) = (\<exists>r\<in>set rows. find (\<lambda>t. priceAt r t \<noteq> None) R = Some s)" for s
    by (auto simp: filter_empty_conv simp del: not_None_eq)
  have "availabilityGroupsOf ck sts rows
      = filter (\<lambda>g. 0 < length (items g)) (map toGroup (map (\<lambda>s. (s, ?its s)) R))"
    unfolding availabilityGroupsOf_def Let_def R_def [symmetric]
    by (simp only: availability_byStore [OF dR])
  also have "\<dots> = map (\<lambda>s. \<lparr>store = s, items = ?its' s\<rparr>) (filter (\<lambda>s. ?its' s \<noteq> []) R)"
    by (simp add: filter_map comp_def toGroup_def its del: not_None_eq)
  finally show ?thesis
    by (simp only: ne)
qed


lemma rankedStores_no_empty: "[] \<notin> set (rankedStores ck rows)"
  by (simp add: rankedStores_set stores_set)

lemma availabilityGroups_eq:
  fixes ck :: "string \<Rightarrow> 'k::linorder" and rows :: "ApiCompareRow list"
  defines "R \<equiv> rankedStores ck rows"
  shows "availabilityGroups ck rows
     = map (\<lambda>s. \<lparr>store = s,
                 items = map (\<lambda>r. mkItem r s (priceTextAt r s) (priceAt r s))
                             (filter (\<lambda>r. find (\<lambda>t. priceAt r t \<noteq> None) R = Some s) rows)\<rparr>)
           (filter (\<lambda>s. \<exists>r\<in>set rows. find (\<lambda>t. priceAt r t \<noteq> None) R = Some s) R)"
proof -
  have "[] \<notin> set (stores ck rows)"
    by (simp add: stores_set)
  from availabilityGroupsOf_eq [OF stores_distinct this, of ck rows] show ?thesis
    by (simp only: availabilityGroups_def rankedStores_def R_def)
qed

lemma availabilityGroups_stores:
  "set (map store (availabilityGroups ck rows)) \<subseteq> set (rankedStores ck rows)"
proof -
  let ?R = "rankedStores ck rows"
  have "map store (availabilityGroups ck rows)
      = filter (\<lambda>s. \<exists>r\<in>set rows. find (\<lambda>t. priceAt r t \<noteq> None) ?R = Some s) ?R"
    unfolding availabilityGroups_eq by (simp add: comp_def del: not_None_eq)
  then have "set (map store (availabilityGroups ck rows))
      = set (filter (\<lambda>s. \<exists>r\<in>set rows. find (\<lambda>t. priceAt r t \<noteq> None) ?R = Some s) ?R)"
    by (rule arg_cong)
  then show ?thesis
    by (simp only: set_filter) blast
qed

lemma availabilityGroups_keys:
  "mset (groupedKeys (availabilityGroups ck rows))
     = mset (map product_key
              (filter (\<lambda>r. placedAvailable (rankedStores ck rows) r \<noteq> None) rows))"
proof -
  let ?R = "rankedStores ck rows"
  let ?m0 = "map (\<lambda>s. (s, [])) ?R :: (string \<times> GroupedItem list) list"
  let ?byStore = "foldl (groupStep (placedAvailable ?R) (itemAvailable ?R)) ?m0 rows"
  have m0: "foldl (\<lambda>m s. AList.update s [] m) [] ?R = ?m0"
    using init_alist [OF rankedStores_distinct, where m = "[]" and v = "[]"] by simp
  have "availabilityGroups ck rows
      = filter (\<lambda>g. items g \<noteq> []) (map toGroup ?byStore)"
    by (simp add: availabilityGroups_def availabilityGroupsOf_def Let_def rankedStores_def [symmetric]
        m0 availabilityStep_groupStep)
  then have "concat (map items (availabilityGroups ck rows)) = concat (map snd ?byStore)"
    by (simp add: concat_filter_nonempty comp_def)
  moreover have "concat (map snd ?m0) = []"
    by (induction ?R) simp_all
  ultimately have "mset (concat (map items (availabilityGroups ck rows)))
      = mset (map (itemAvailable ?R) (filter (\<lambda>r. placedAvailable ?R r \<noteq> None) rows))"
    by (simp add: groupFold_allItems del: not_None_eq)
  then have "image_mset item_product_key (mset (concat (map items (availabilityGroups ck rows))))
      = image_mset item_product_key
          (mset (map (itemAvailable ?R) (filter (\<lambda>r. placedAvailable ?R r \<noteq> None) rows)))"
    by simp
  then show ?thesis
    by (simp add: groupedKeys_def comp_def multiset.map_comp del: not_None_eq)
qed

lemma sort_key_unique:
  assumes "distinct xs" "distinct ys" "set xs = set ys" "inj_on f (set xs)"
  shows "sort_key f xs = sort_key f ys"
proof -
  have "map f (sort_key f xs) = map f (sort_key f ys)"
  proof (rule sorted_distinct_set_unique)
    show "sorted (map f (sort_key f xs))" "sorted (map f (sort_key f ys))"
      by (rule sorted_sort_key)+
    show "distinct (map f (sort_key f xs))"
      using assms(1,4) by (simp add: distinct_map)
    show "distinct (map f (sort_key f ys))"
      using assms(2,3,4) by (simp add: distinct_map)
    show "set (map f (sort_key f xs)) = set (map f (sort_key f ys))"
      using assms(3) by simp
  qed
  moreover have "inj_on f (set (sort_key f xs) \<union> set (sort_key f ys))"
    using assms(3,4) by simp
  ultimately show ?thesis
    by (simp only: inj_on_map_eq_map)
qed

lemma storeSet_perm:
  assumes "mset rows' = mset rows"
  shows "set (storeSet rows') = set (storeSet rows)"
proof -
  from assms have "set rows' = set rows"
    by (rule mset_eq_setD)
  then show ?thesis
    by (simp add: storeSet_set)
qed

lemmas stores_eval = stores_def storeSet_def setAdd_def

lemmas availability_eval = availabilityGroups_def availabilityGroupsOf_def rankedStores_def
  rankedStoresOf_def availabilityCount_def chosenStore_def availabilityStep_def
  appendItem_def mapGetOr_def mkItem_def toGroup_def codeUnits_def Let_def

subsection \<open>Policy A\<close>

text \<open>
  What the two loops compute. \<open>bestStoreOf row\<close> is the first store, in the order of the row's
  store mapping, whose parseable price equals the least parseable price of the row, and there is
  none exactly when the row has no parseable price. The groups are sorted ascending by store
  name under the collation, no store has two groups, and the items of a group are the rows with
  that \<open>bestStoreOf\<close>, in input order, each with the price text and number of that store.
\<close>

lemma cheapestGroups_characterisation:
  "(bestStoreOf row = Some s \<longleftrightarrow>
      (\<exists>p. find (\<lambda>t. priceAt row t = Some p) (storeKeys row) = Some s
           \<and> (\<forall>t q. priceAt row t = Some q \<longrightarrow> p \<le> q)))
   \<and> (bestStoreOf row = None \<longleftrightarrow> (\<forall>t. priceAt row t = None))
   \<and> sorted (map (\<lambda>g. ck (store g)) (cheapestGroups ck rows))
   \<and> distinct (map store (cheapestGroups ck rows))
   \<and> set (map store (cheapestGroups ck rows))
       = {s. s \<noteq> [] \<and> (\<exists>r\<in>set rows. bestStoreOf r = Some s)}
   \<and> (\<forall>g\<in>set (cheapestGroups ck rows).
         items g = map (\<lambda>r. mkItem r (store g) (priceTextAt r (store g)) (priceAt r (store g)))
                       (filter (\<lambda>r. bestStoreOf r = Some (store g)) rows))"
  using bestOf_iff [of row s] bestOf_None [of row] cheapestGroups_sorted [of ck rows]
    cheapestGroups_distinct [of ck rows] cheapestGroups_stores [of ck rows]
    cheapestGroups_items [of _ ck rows]
  by blast

text \<open>
  In \<open>P2\<close> the stores tie and \<open>B\<close> comes first in the row, so \<open>B\<close> wins although \<open>A\<close> sorts
  first; in \<open>P3\<close> the same tie goes to \<open>A\<close>.
\<close>

lemma cheapestGroups_tie_example:
  "bestStoreOf (mkRow ''P2'' [(''B'', ''2''), (''A'', ''2'')]) = Some ''B''
   \<and> map (\<lambda>g. (store g, map item_product_key (items g)))
         (cheapestGroups codeUnits
            [mkRow ''P1'' [(''A'', ''5''), (''B'', ''3'')],
             mkRow ''P2'' [(''B'', ''2''), (''A'', ''2'')],
             mkRow ''P3'' [(''A'', ''2''), (''B'', ''2'')]])
       = [(''A'', [''P3'']), (''B'', [''P1'', ''P2''])]"
  using cheapestGroups_characterisation [of "mkRow ''P2'' [(''B'', ''2''), (''A'', ''2'')]" "''B''" codeUnits
      "[mkRow ''P1'' [(''A'', ''5''), (''B'', ''3'')],
        mkRow ''P2'' [(''B'', ''2''), (''A'', ''2'')],
        mkRow ''P3'' [(''A'', ''2''), (''B'', ''2'')]]"]
  by (simp add: row_eval cheapest_eval bestStoreOf_def)

text \<open>
  C1. The code departs from the claim at a row whose lowest parseable price stands under the
  empty store name. Product \<open>P\<close> has the parseable prices \<open>1\<close> (under the empty name) and \<open>2\<close>
  (store \<open>A\<close>). \<open>bestStore\<close> ends as the empty string, which the guard
  \<^verbatim>\<open>if (!bestStore) continue;\<close>, written for \<open>null\<close>, takes for "no store": the row is skipped
  and Policy A returns no group at all, against the page's own words ("Each product is assigned
  to the store where it has the cheapest available price"). Policy B, on the same row, files
  \<open>P\<close> under \<open>A\<close>.
\<close>

theorem cheapestGroups_drops_priced_product:
  "priceAt (mkRow ''P'' [('''', ''1''), (''A'', ''2'')]) '''' = Some 1
   \<and> priceAt (mkRow ''P'' [('''', ''1''), (''A'', ''2'')]) ''A'' = Some 2
   \<and> bestStoreOf (mkRow ''P'' [('''', ''1''), (''A'', ''2'')]) = Some ''''
   \<and> cheapestGroups codeUnits [mkRow ''P'' [('''', ''1''), (''A'', ''2'')]] = []
   \<and> map (\<lambda>g. (store g, map item_product_key (items g)))
         (availabilityGroups codeUnits [mkRow ''P'' [('''', ''1''), (''A'', ''2'')]])
       = [(''A'', [''P''])]"
  by (simp add: row_eval cheapest_eval stores_eval availability_eval bestStoreOf_def)

subsection \<open>Policy B\<close>

text \<open>
  C2. The ranked list is a rearrangement of the global store list, each store once, in which a store with a
  larger coverage (the number of rows with a parseable price at the store) comes earlier and,
  among stores of equal coverage, the names ascend under the collation. The result has one
  group for each ranked store that is the first ranked store with a parseable price for some
  row, in ranked order, and the items of a group are those rows, in input order. A row without
  any parseable price has no such store.
\<close>

theorem availabilityGroups_spec:
  fixes ck :: "string \<Rightarrow> 'k::linorder" and rows :: "ApiCompareRow list"
  defines "R \<equiv> rankedStores ck rows"
  shows "mset R = mset (stores ck rows)
     \<and> distinct R
     \<and> sorted_wrt (\<lambda>a b. coverage rows b < coverage rows a
                         \<or> (coverage rows a = coverage rows b \<and> ck a \<le> ck b)) R
     \<and> availabilityGroups ck rows
         = map (\<lambda>s. \<lparr>store = s,
                     items = map (\<lambda>r. mkItem r s (priceTextAt r s) (priceAt r s))
                                 (filter (\<lambda>r. find (\<lambda>t. priceAt r t \<noteq> None) R = Some s) rows)\<rparr>)
               (filter (\<lambda>s. \<exists>r\<in>set rows. find (\<lambda>t. priceAt r t \<noteq> None) R = Some s) R)
     \<and> ((\<forall>t. priceAt row t = None) \<longrightarrow> find (\<lambda>t. priceAt row t \<noteq> None) R = None)"
proof -
  have "(\<forall>t. priceAt row t = None) \<longrightarrow> find (\<lambda>t. priceAt row t \<noteq> None) R = None"
    by (simp add: find_None_iff)
  then show ?thesis
    unfolding R_def
    using rankedStores_mset [of ck rows] rankedStores_distinct [of ck rows]
      rankedStores_sorted [of rows ck] availabilityGroups_eq [of ck rows]
    by (simp only: simp_thms)
qed

text \<open>
  The rows of the witness: \<open>B\<close> covers three rows and \<open>A\<close> two, so \<open>B\<close> ranks first and its group
  comes first; \<open>X\<close>, priced at both, goes to \<open>B\<close>; \<open>W\<close>, priced only at \<open>A\<close>, goes to \<open>A\<close>.
\<close>

theorem availabilityGroups_spec_witness:
  "rankedStores codeUnits
      [mkRow ''X'' [(''A'', ''1''), (''B'', ''1'')], mkRow ''Y'' [(''B'', ''1'')],
       mkRow ''Z'' [(''B'', ''2'')], mkRow ''W'' [(''A'', ''1'')]]
     = [''B'', ''A'']
   \<and> map (\<lambda>g. (store g, map item_product_key (items g)))
       (availabilityGroups codeUnits
         [mkRow ''X'' [(''A'', ''1''), (''B'', ''1'')], mkRow ''Y'' [(''B'', ''1'')],
          mkRow ''Z'' [(''B'', ''2'')], mkRow ''W'' [(''A'', ''1'')]])
     = [(''B'', [''X'', ''Y'', ''Z'']), (''A'', [''W''])]"
  using availabilityGroups_spec [of codeUnits
      "[mkRow ''X'' [(''A'', ''1''), (''B'', ''1'')], mkRow ''Y'' [(''B'', ''1'')],
        mkRow ''Z'' [(''B'', ''2'')], mkRow ''W'' [(''A'', ''1'')]]"
      "mkRow ''V'' [(''C'', ''n/a'')]"]
  by (simp add: row_eval stores_eval availability_eval)

subsection \<open>The partition invariant\<close>

lemma priced_in_stores:
  assumes "row \<in> set rows"
  shows "(t \<in> set (stores ck rows) \<and> priceAt row t = Some q) = (t \<noteq> [] \<and> priceAt row t = Some q)"
  using assms priceAt_Some_key [of row t q] by (auto simp: stores_set)

lemma placedCheapest_ne: "(placedCheapest r \<noteq> None) = (\<exists>s. s \<noteq> [] \<and> bestStoreOf r = Some s)"
  by (auto simp: placedCheapest_def split: option.splits)

lemma chosenStore_ne: "(chosenStore ranked r \<noteq> None) = (\<exists>t\<in>set ranked. priceAt r t \<noteq> None)"
  by (auto simp: chosenStore_def find_None_iff simp del: not_None_eq)

lemma placedAvailable_ne:
  assumes "r \<in> set rows"
  shows "(placedAvailable (rankedStores ck rows) r \<noteq> None) = (\<exists>s. s \<noteq> [] \<and> priceAt r s \<noteq> None)"
proof -
  have "(\<exists>t\<in>set (rankedStores ck rows). priceAt r t \<noteq> None) = (\<exists>s. s \<noteq> [] \<and> priceAt r s \<noteq> None)"
    using priced_in_stores [OF assms, of _ ck] by (auto simp: rankedStores_set)
  then show ?thesis
    by (simp only: placedAvailable_eq [OF rankedStores_no_empty] chosenStore_ne)
qed

lemma cheapest_keys_mset:
  "mset (groupedKeys (cheapestGroups ck rows))
     = mset (map product_key (filter (\<lambda>r. \<exists>s. s \<noteq> [] \<and> bestStoreOf r = Some s) rows))"
  by (simp only: cheapestGroups_keys placedCheapest_ne)

lemma availability_keys_mset:
  "mset (groupedKeys (availabilityGroups ck rows))
     = mset (map product_key (filter (\<lambda>r. \<exists>s. s \<noteq> [] \<and> priceAt r s \<noteq> None) rows))"
proof -
  have "filter (\<lambda>r. placedAvailable (rankedStores ck rows) r \<noteq> None) rows
      = filter (\<lambda>r. \<exists>s. s \<noteq> [] \<and> priceAt r s \<noteq> None) rows"
    by (rule filter_cong [OF refl]) (rule placedAvailable_ne)
  then show ?thesis
    by (simp only: availabilityGroups_keys)
qed

lemma bestStoreOf_priced: "bestStoreOf r = Some s \<Longrightarrow> priceAt r s \<noteq> None"
  using bestOf_Some [of r s] by auto

text \<open>
  C7 (as stated, refuted). Nothing in the code removes a repeated product key from the
  response. With two rows of the same key \<open>P\<close>, one priced at \<open>A\<close> only and one at \<open>B\<close> only, both
  policies put \<open>P\<close> into two groups.
\<close>

theorem allocation_partition_counterexample:
  "map (\<lambda>g. (store g, map item_product_key (items g)))
     (cheapestGroups codeUnits [mkRow ''P'' [(''A'', ''1'')], mkRow ''P'' [(''B'', ''1'')]])
     = [(''A'', [''P'']), (''B'', [''P''])]
   \<and> map (\<lambda>g. (store g, map item_product_key (items g)))
     (availabilityGroups codeUnits [mkRow ''P'' [(''A'', ''1'')], mkRow ''P'' [(''B'', ''1'')]])
     = [(''A'', [''P'']), (''B'', [''P''])]"
  by (simp add: row_eval cheapest_eval stores_eval availability_eval)

text \<open>
  C7 (amended). In each policy every row contributes at most one item: the product keys listed
  over all groups are, counted with multiplicity, the keys of the rows that have a winning
  store with a non-empty name (Policy A), respectively a parseable price at a store with a
  non-empty name (Policy B). Hence, when the product keys of the rows are pairwise distinct, no
  key is listed twice, so a key is in at most one group; and a key all of whose rows have no
  parseable price at any store is in no group.
\<close>

theorem allocation_partition:
  "mset (groupedKeys (cheapestGroups ck rows))
     = mset (map product_key (filter (\<lambda>r. \<exists>s. s \<noteq> [] \<and> bestStoreOf r = Some s) rows))
   \<and> mset (groupedKeys (availabilityGroups ck rows))
     = mset (map product_key (filter (\<lambda>r. \<exists>s. s \<noteq> [] \<and> priceAt r s \<noteq> None) rows))
   \<and> (distinct (map product_key rows) \<longrightarrow>
         distinct (groupedKeys (cheapestGroups ck rows))
       \<and> distinct (groupedKeys (availabilityGroups ck rows)))
   \<and> ((\<forall>row\<in>set rows. product_key row = k \<longrightarrow> (\<forall>s. priceAt row s = None)) \<longrightarrow>
         k \<notin> set (groupedKeys (cheapestGroups ck rows))
       \<and> k \<notin> set (groupedKeys (availabilityGroups ck rows)))"
proof -
  note A = cheapest_keys_mset [of ck rows]
  note B = availability_keys_mset [of ck rows]
  have dA: "distinct (groupedKeys (cheapestGroups ck rows))"
    if "distinct (map product_key rows)"
    using distinct_map_filter [OF that] by (simp only: mset_eq_imp_distinct_iff [OF A])
  have dB: "distinct (groupedKeys (availabilityGroups ck rows))"
    if "distinct (map product_key rows)"
    using distinct_map_filter [OF that] by (simp only: mset_eq_imp_distinct_iff [OF B])
  have "set_mset (mset (groupedKeys (cheapestGroups ck rows)))
      = set_mset (mset (map product_key
          (filter (\<lambda>r. \<exists>s. s \<noteq> [] \<and> bestStoreOf r = Some s) rows)))"
    by (simp only: A)
  then have sa: "set (groupedKeys (cheapestGroups ck rows))
      = product_key ` set (filter (\<lambda>r. \<exists>s. s \<noteq> [] \<and> bestStoreOf r = Some s) rows)"
    by (simp only: set_mset_mset set_map)
  have "set_mset (mset (groupedKeys (availabilityGroups ck rows)))
      = set_mset (mset (map product_key
          (filter (\<lambda>r. \<exists>s. s \<noteq> [] \<and> priceAt r s \<noteq> None) rows)))"
    by (simp only: B)
  then have sb: "set (groupedKeys (availabilityGroups ck rows))
      = product_key ` set (filter (\<lambda>r. \<exists>s. s \<noteq> [] \<and> priceAt r s \<noteq> None) rows)"
    by (simp only: set_mset_mset set_map)
  have nA: "k \<notin> set (groupedKeys (cheapestGroups ck rows))"
    if h: "\<forall>row\<in>set rows. product_key row = k \<longrightarrow> (\<forall>s. priceAt row s = None)"
  proof
    assume "k \<in> set (groupedKeys (cheapestGroups ck rows))"
    then obtain r s where "r \<in> set rows" "product_key r = k" "bestStoreOf r = Some s"
      unfolding sa by auto
    with h bestStoreOf_priced [of r s] show False
      by simp
  qed
  have nB: "k \<notin> set (groupedKeys (availabilityGroups ck rows))"
    if h: "\<forall>row\<in>set rows. product_key row = k \<longrightarrow> (\<forall>s. priceAt row s = None)"
  proof
    assume "k \<in> set (groupedKeys (availabilityGroups ck rows))"
    then obtain r s where "r \<in> set rows" "product_key r = k" "priceAt r s \<noteq> None"
      unfolding sb by (auto simp del: not_None_eq)
    with h show False
      by simp
  qed
  show ?thesis
    using A B dA dB nA nB by (intro conjI impI)
qed

theorem allocation_partition_witness:
  "distinct (groupedKeys (cheapestGroups codeUnits
      [mkRow ''X'' [(''A'', ''2''), (''B'', ''1'')], mkRow ''Y'' [(''A'', ''1'')], mkRow ''V'' [(''C'', ''n/a'')]]))
   \<and> distinct (groupedKeys (availabilityGroups codeUnits
      [mkRow ''X'' [(''A'', ''2''), (''B'', ''1'')], mkRow ''Y'' [(''A'', ''1'')], mkRow ''V'' [(''C'', ''n/a'')]]))
   \<and> ''V'' \<notin> set (groupedKeys (cheapestGroups codeUnits
      [mkRow ''X'' [(''A'', ''2''), (''B'', ''1'')], mkRow ''Y'' [(''A'', ''1'')], mkRow ''V'' [(''C'', ''n/a'')]]))
   \<and> ''V'' \<notin> set (groupedKeys (availabilityGroups codeUnits
      [mkRow ''X'' [(''A'', ''2''), (''B'', ''1'')], mkRow ''Y'' [(''A'', ''1'')], mkRow ''V'' [(''C'', ''n/a'')]]))"
proof -
  let ?rows = "[mkRow ''X'' [(''A'', ''2''), (''B'', ''1'')], mkRow ''Y'' [(''A'', ''1'')],
                mkRow ''V'' [(''C'', ''n/a'')]]"
  have d: "distinct (map product_key ?rows)"
    by (simp add: mkRow_def)
  have n: "\<forall>row\<in>set ?rows. product_key row = ''V'' \<longrightarrow> (\<forall>s. priceAt row s = None)"
    by (simp add: row_eval)
  note T = allocation_partition [of codeUnits ?rows "''V''"]
  from T [THEN conjunct2, THEN conjunct2, THEN conjunct1, THEN mp, OF d]
    T [THEN conjunct2, THEN conjunct2, THEN conjunct2, THEN mp, OF n]
  show ?thesis
    by (simp only: simp_thms)
qed

subsection \<open>The store list\<close>

lemma inj_codeUnits: "inj_on codeUnits A"
proof (rule inj_onI)
  fix x y assume "codeUnits x = codeUnits y"
  then have "map (of_char :: char \<Rightarrow> nat) x = map of_char y"
    by (simp add: codeUnits_def)
  moreover have "inj (of_char :: char \<Rightarrow> nat)"
    by (rule injI) simp
  ultimately show "x = y"
    by (simp add: inj_map_eq_map)
qed

text \<open>
  C8 (as stated, refuted). Two rows name the same store in two canonically equivalent
  spellings. The set holds both names, \<open>localeCompare\<close> returns \<open>0\<close> on them, and the stable sort
  leaves them in insertion order, which is the order of the rows: the store list of the
  swapped rows is not the same list.
\<close>

theorem stores_permutation_counterexample:
  "stores canonicalUnits
     [mkRow ''P'' [([CHR 0xC3, CHR 0xA9], ''1'')], mkRow ''Q'' [([CHR 0x65, CHR 0xCC, CHR 0x81], ''1'')]]
     = [[CHR 0xC3, CHR 0xA9], [CHR 0x65, CHR 0xCC, CHR 0x81]]
   \<and> stores canonicalUnits
     [mkRow ''Q'' [([CHR 0x65, CHR 0xCC, CHR 0x81], ''1'')], mkRow ''P'' [([CHR 0xC3, CHR 0xA9], ''1'')]]
     = [[CHR 0x65, CHR 0xCC, CHR 0x81], [CHR 0xC3, CHR 0xA9]]
   \<and> stores canonicalUnits
     [mkRow ''Q'' [([CHR 0x65, CHR 0xCC, CHR 0x81], ''1'')], mkRow ''P'' [([CHR 0xC3, CHR 0xA9], ''1'')]]
     \<noteq> stores canonicalUnits
     [mkRow ''P'' [([CHR 0xC3, CHR 0xA9], ''1'')], mkRow ''Q'' [([CHR 0x65, CHR 0xCC, CHR 0x81], ''1'')]]"
  by (simp add: row_eval stores_eval canonicalUnits_def codeUnits_def)

text \<open>
  C8 (amended). The store list of a permutation of the rows has the same names, each once,
  and is sorted ascending under the collation; it is the same list whenever the collation
  separates the store names, that is when no two distinct names compare equal.
\<close>

theorem stores_permutation:
  assumes "mset rows' = mset rows"
  shows "set (stores ck rows') = set (stores ck rows)
       \<and> distinct (stores ck rows')
       \<and> sorted (map ck (stores ck rows'))
       \<and> (inj_on ck (set (stores ck rows)) \<longrightarrow> stores ck rows' = stores ck rows)"
proof -
  have s: "set (storeSet rows') = set (storeSet rows)"
    using assms by (rule storeSet_perm)
  have "stores ck rows' = stores ck rows" if "inj_on ck (set (stores ck rows))"
    unfolding stores_def
    using storeSet_distinct storeSet_distinct s that
    by (intro sort_key_unique) (simp_all add: stores_def)
  then show ?thesis
    using s stores_distinct [of ck rows'] stores_sorted [of ck rows']
    by (simp add: stores_def)
qed

theorem stores_permutation_witness:
  "stores codeUnits [mkRow ''Q'' [(''C'', ''1''), (''A'', ''1'')], mkRow ''P'' [(''B'', ''1''), (''A'', ''2'')]]
     = stores codeUnits [mkRow ''P'' [(''B'', ''1''), (''A'', ''2'')], mkRow ''Q'' [(''C'', ''1''), (''A'', ''1'')]]"
proof -
  have "mset [mkRow ''Q'' [(''C'', ''1''), (''A'', ''1'')], mkRow ''P'' [(''B'', ''1''), (''A'', ''2'')]]
      = mset [mkRow ''P'' [(''B'', ''1''), (''A'', ''2'')], mkRow ''Q'' [(''C'', ''1''), (''A'', ''1'')]]"
    by simp
  from stores_permutation [OF this, of codeUnits] inj_codeUnits show ?thesis
    by blast
qed

subsection \<open>The empty store name\<close>

text \<open>
  C10. The empty string is never in the global store list, hence never in the ranked list of
  Policy B and never the store of one of its groups; nor is it the store of a group of Policy A.
  In Policy A a row whose price under the empty store name is parseable and strictly below every
  other parseable price of the row has the empty name as its \<open>bestStore\<close>, the pass of the loop
  over it leaves the map \<open>byStore\<close> as it was, and the result is the result for the list without
  that row: the row is in no group although it has a parseable price.
\<close>

theorem empty_store_name:
  "[] \<notin> set (stores ck rows)
   \<and> [] \<notin> set (rankedStores ck rows)
   \<and> [] \<notin> set (map store (availabilityGroups ck rows))
   \<and> [] \<notin> set (map store (cheapestGroups ck rows))
   \<and> (priceAt row [] = Some p \<longrightarrow>
        (\<forall>t q. t \<noteq> [] \<longrightarrow> priceAt row t = Some q \<longrightarrow> p < q) \<longrightarrow>
        bestStoreOf row = Some []
        \<and> cheapestStep byStore row = byStore
        \<and> cheapestGroups ck (rows1 @ row # rows2) = cheapestGroups ck (rows1 @ rows2))"
proof -
  have 1: "[] \<notin> set (stores ck rows)"
    by (simp add: stores_set)
  have 2: "[] \<notin> set (rankedStores ck rows)"
    by (rule rankedStores_no_empty)
  from 2 availabilityGroups_stores [of ck rows]
  have 3: "[] \<notin> set (map store (availabilityGroups ck rows))"
    by blast
  have 4: "[] \<notin> set (map store (cheapestGroups ck rows))"
    by (simp only: cheapestGroups_stores) simp
  have 5: "bestStoreOf row = Some []
        \<and> cheapestStep byStore row = byStore
        \<and> cheapestGroups ck (rows1 @ row # rows2) = cheapestGroups ck (rows1 @ rows2)"
    if p: "priceAt row [] = Some p"
      and m: "\<forall>t q. t \<noteq> [] \<longrightarrow> priceAt row t = Some q \<longrightarrow> p < q"
  proof -
    from p have "[] \<in> set (storeKeys row)"
      by (rule priceAt_Some_key)
    moreover from p m have "\<forall>t. priceAt row t = Some p \<longrightarrow> t = []"
      by (metis less_irrefl)
    ultimately have "find (\<lambda>t. priceAt row t = Some p) (storeKeys row) = Some []"
      using p by (intro find_unique) simp_all
    moreover from p m have "\<forall>t q. priceAt row t = Some q \<longrightarrow> p \<le> q"
      by (metis less_imp_le option.inject order_refl)
    ultimately have b: "bestStoreOf row = Some []"
      unfolding bestOf_iff by blast
    then have "placedCheapest row = None"
      by (simp add: placedCheapest_None_iff)
    then have s: "cheapestStep m row = m" for m
      by (simp add: cheapestStep_groupStep groupStep_None)
    then have "foldl cheapestStep [] (rows1 @ row # rows2) = foldl cheapestStep [] (rows1 @ rows2)"
      by simp
    then have "cheapestGroups ck (rows1 @ row # rows2) = cheapestGroups ck (rows1 @ rows2)"
      by (simp only: cheapestGroups_def)
    with b s show ?thesis
      by simp
  qed
  from 5 have 6: "priceAt row [] = Some p \<longrightarrow>
        (\<forall>t q. t \<noteq> [] \<longrightarrow> priceAt row t = Some q \<longrightarrow> p < q) \<longrightarrow>
        bestStoreOf row = Some []
        \<and> cheapestStep byStore row = byStore
        \<and> cheapestGroups ck (rows1 @ row # rows2) = cheapestGroups ck (rows1 @ rows2)"
    by (intro impI)
  from 1 2 3 4 6 show ?thesis
    by (intro conjI)
qed

theorem empty_store_name_witness:
  "bestStoreOf (mkRow ''P'' [(''A'', ''2''), ('''', ''1'')]) = Some []
   \<and> cheapestGroups codeUnits ([mkRow ''Q'' [(''A'', ''3'')]] @ mkRow ''P'' [(''A'', ''2''), ('''', ''1'')] # [])
       = cheapestGroups codeUnits ([mkRow ''Q'' [(''A'', ''3'')]] @ [])"
proof -
  let ?P = "mkRow ''P'' [(''A'', ''2''), ('''', ''1'')]"
  have p: "priceAt ?P [] = Some 1"
    by (simp add: row_eval)
  have m: "\<forall>t q. t \<noteq> [] \<longrightarrow> priceAt ?P t = Some q \<longrightarrow> 1 < q"
    by (simp add: row_eval)
  note T = empty_store_name [of codeUnits "[]" ?P 1 "[]" "[mkRow ''Q'' [(''A'', ''3'')]]" "[]"]
  from T [THEN conjunct2, THEN conjunct2, THEN conjunct2, THEN conjunct2, THEN mp, THEN mp, OF p m]
  show ?thesis
    by (simp only: simp_thms)
qed

section \<open>Highlighting\<close>

lemma numeric_fold_lookup:
  "map_of (foldl (\<lambda>m s. case priceAt row s of None \<Rightarrow> m | Some p \<Rightarrow> AList.update s p m) m sts) t
     = (if t \<in> set sts \<and> priceAt row t \<noteq> None then priceAt row t else map_of m t)"
proof (induction sts arbitrary: m)
  case Nil
  show ?case by simp
next
  case (Cons s sts)
  show ?case
    by (cases "priceAt row s") (auto simp: Cons AList.update_conv')
qed

lemma numeric_fold_distinct:
  "distinct (map fst m) \<Longrightarrow>
   distinct (map fst (foldl (\<lambda>m s. case priceAt row s of None \<Rightarrow> m | Some p \<Rightarrow> AList.update s p m) m sts))"
proof (induction sts arbitrary: m)
  case Nil
  then show ?case by simp
next
  case (Cons s sts)
  then show ?case
    by (cases "priceAt row s") (simp_all add: AList.distinct_update)
qed

lemma numericByStore_lookup:
  "map_of (numericByStore sts row) t = (if t \<in> set sts then priceAt row t else None)"
  by (auto simp: numericByStore_def numeric_fold_lookup)

lemma numericByStore_values:
  "set (map snd (numericByStore sts row)) = {p. \<exists>t\<in>set sts. priceAt row t = Some p}"
proof -
  have "distinct (map fst (numericByStore sts row))"
    unfolding numericByStore_def by (rule numeric_fold_distinct) simp
  then have "snd ` set (numericByStore sts row) = ran (map_of (numericByStore sts row))"
    by (simp add: ran_distinct)
  then show ?thesis
    by (auto simp: ran_def numericByStore_lookup split: if_splits)
qed

lemma mathMin_eq: "mathMin vs = (if vs = [] then None else Some (Min (set vs)))"
  by (cases vs) (simp_all add: mathMin_def Min.set_eq_fold del: set_simps)

lemma mathMax_eq: "mathMax vs = (if vs = [] then None else Some (Max (set vs)))"
  by (cases vs) (simp_all add: mathMax_def Max.set_eq_fold del: set_simps)

lemma highlightCells_stores: "map cell_store (highlightCells sts row) = sts"
  by (simp add: highlightCells_def Let_def comp_def)

lemma highlightCells_flags:
  assumes "c \<in> set (highlightCells sts row)"
  defines "V \<equiv> {p. \<exists>t\<in>set sts. priceAt row t = Some p}"
  shows "isBest c \<longleftrightarrow> (\<exists>p. priceAt row (cell_store c) = Some p \<and> (\<forall>q\<in>V. p \<le> q))"
    and "isWorst c \<longleftrightarrow> (\<exists>p. priceAt row (cell_store c) = Some p \<and> (\<forall>q\<in>V. q \<le> p)
                            \<and> (\<exists>q\<in>V. q \<noteq> p))"
proof -
  let ?vals = "map snd (numericByStore sts row)"
  have V: "set ?vals = V"
    by (simp only: numericByStore_values V_def)
  have fin: "finite V"
    using V by (metis List.finite_set)
  from assms(1) obtain s where s: "s \<in> set sts"
    and c: "c = \<lparr>cell_store = s,
                 isBest = (mathMin ?vals \<noteq> None \<and> map_of (numericByStore sts row) s = mathMin ?vals),
                 isWorst = ((mathMin ?vals \<noteq> None \<and> mathMax ?vals \<noteq> None \<and> mathMin ?vals \<noteq> mathMax ?vals)
                            \<and> mathMax ?vals \<noteq> None
                            \<and> map_of (numericByStore sts row) s = mathMax ?vals)\<rparr>"
    by (auto simp: highlightCells_def Let_def)
  have look: "map_of (numericByStore sts row) s = priceAt row s"
    using s by (simp add: numericByStore_lookup)
  have e: "(?vals = []) = (V = {})"
    using V by (metis set_empty)
  have mn: "mathMin ?vals = (if V = {} then None else Some (Min V))"
    unfolding mathMin_eq e V by (rule refl)
  have mx: "mathMax ?vals = (if V = {} then None else Some (Max V))"
    unfolding mathMax_eq e V by (rule refl)
  show "isBest c \<longleftrightarrow> (\<exists>p. priceAt row (cell_store c) = Some p \<and> (\<forall>q\<in>V. p \<le> q))"
  proof (cases "V = {}")
    case True
    with s show ?thesis
      by (auto simp: c mn V_def)
  next
    case False
    have "priceAt row s = Some (Min V) \<longleftrightarrow> (\<exists>p. priceAt row s = Some p \<and> (\<forall>q\<in>V. p \<le> q))"
    proof
      assume "priceAt row s = Some (Min V)"
      with fin show "\<exists>p. priceAt row s = Some p \<and> (\<forall>q\<in>V. p \<le> q)"
        by auto
    next
      assume "\<exists>p. priceAt row s = Some p \<and> (\<forall>q\<in>V. p \<le> q)"
      then obtain p where p: "priceAt row s = Some p" "\<forall>q\<in>V. p \<le> q"
        by blast
      with s have "p \<in> V" by (auto simp: V_def)
      with p fin have "Min V = p"
        by (intro Min_eqI) auto
      with p show "priceAt row s = Some (Min V)" by simp
    qed
    with False show ?thesis
      by (simp add: c mn look)
  qed
  show "isWorst c \<longleftrightarrow> (\<exists>p. priceAt row (cell_store c) = Some p \<and> (\<forall>q\<in>V. q \<le> p)
                            \<and> (\<exists>q\<in>V. q \<noteq> p))"
  proof (cases "V = {}")
    case True
    with s show ?thesis
      by (auto simp: c mn mx V_def)
  next
    case False
    have "(priceAt row s = Some (Max V) \<and> Min V \<noteq> Max V)
        \<longleftrightarrow> (\<exists>p. priceAt row s = Some p \<and> (\<forall>q\<in>V. q \<le> p) \<and> (\<exists>q\<in>V. q \<noteq> p))"
    proof
      assume a: "priceAt row s = Some (Max V) \<and> Min V \<noteq> Max V"
      from fin False have "Min V \<in> V" by (rule Min_in)
      with a fin show "\<exists>p. priceAt row s = Some p \<and> (\<forall>q\<in>V. q \<le> p) \<and> (\<exists>q\<in>V. q \<noteq> p)"
        by auto
    next
      assume "\<exists>p. priceAt row s = Some p \<and> (\<forall>q\<in>V. q \<le> p) \<and> (\<exists>q\<in>V. q \<noteq> p)"
      then obtain p q where p: "priceAt row s = Some p" "\<forall>q\<in>V. q \<le> p"
        and q: "q \<in> V" "q \<noteq> p"
        by blast
      from p s have pV: "p \<in> V" by (auto simp: V_def)
      with p fin have mxp: "Max V = p"
        by (intro Max_eqI) auto
      from fin q have "Min V \<le> q" by simp
      moreover from p q have "q < p" by auto
      ultimately have "Min V \<noteq> Max V" using mxp by simp
      with p mxp show "priceAt row s = Some (Max V) \<and> Min V \<noteq> Max V" by simp
    qed
    with False show ?thesis
      by (auto simp: c mn mx look)
  qed
qed


lemmas highlight_eval = highlightCells_def numericByStore_def mathMin_def mathMax_def Let_def

text \<open>
  C3 (as stated, refuted). The row has the parseable prices \<open>1\<close> (under the empty store name),
  \<open>2\<close> (store \<open>A\<close>) and \<open>3\<close> (store \<open>B\<close>). The empty name is not a column, so the minimum is taken
  over \<open>A\<close> and \<open>B\<close> only and \<open>A\<close> is flagged best, although its price is not the minimum of the
  row's parseable prices.
\<close>

theorem highlight_counterexample:
  "priceAt (mkRow ''P'' [('''', ''1''), (''A'', ''2''), (''B'', ''3'')]) '''' = Some 1
   \<and> priceAt (mkRow ''P'' [('''', ''1''), (''A'', ''2''), (''B'', ''3'')]) ''A'' = Some 2
   \<and> compareTable codeUnits [mkRow ''P'' [('''', ''1''), (''A'', ''2''), (''B'', ''3'')]]
       = [[\<lparr>cell_store = ''A'', isBest = True, isWorst = False\<rparr>,
           \<lparr>cell_store = ''B'', isBest = False, isWorst = True\<rparr>]]"
  by (simp add: compareTable_def row_eval stores_eval highlight_eval codeUnits_def)

text \<open>
  C3 (amended). The cells of a table row are the stores of the global store list, in order.
  A store is flagged best if and only if it has a parseable price in the row that is the least
  of the row's parseable prices at stores with a non-empty name, and flagged worst if and only
  if it has a parseable price that is the greatest of them and some other of them differs from
  it. A row with no parseable price has no flag.
\<close>

theorem highlight_spec:
  assumes "row \<in> set rows"
  shows "map cell_store (highlightCells (stores ck rows) row) = stores ck rows
       \<and> (\<forall>c\<in>set (highlightCells (stores ck rows) row).
            (isBest c \<longleftrightarrow>
               (\<exists>p. priceAt row (cell_store c) = Some p
                    \<and> (\<forall>t q. t \<noteq> [] \<longrightarrow> priceAt row t = Some q \<longrightarrow> p \<le> q)))
          \<and> (isWorst c \<longleftrightarrow>
               (\<exists>p. priceAt row (cell_store c) = Some p
                    \<and> (\<forall>t q. t \<noteq> [] \<longrightarrow> priceAt row t = Some q \<longrightarrow> q \<le> p)
                    \<and> (\<exists>t q. t \<noteq> [] \<and> priceAt row t = Some q \<and> q \<noteq> p))))"
proof -
  let ?V = "{p. \<exists>t\<in>set (stores ck rows). priceAt row t = Some p}"
  have V: "(q \<in> ?V) = (\<exists>t. t \<noteq> [] \<and> priceAt row t = Some q)" for q
    using priced_in_stores [OF assms, of _ ck q] by auto
  have "(isBest c \<longleftrightarrow>
               (\<exists>p. priceAt row (cell_store c) = Some p
                    \<and> (\<forall>t q. t \<noteq> [] \<longrightarrow> priceAt row t = Some q \<longrightarrow> p \<le> q)))
          \<and> (isWorst c \<longleftrightarrow>
               (\<exists>p. priceAt row (cell_store c) = Some p
                    \<and> (\<forall>t q. t \<noteq> [] \<longrightarrow> priceAt row t = Some q \<longrightarrow> q \<le> p)
                    \<and> (\<exists>t q. t \<noteq> [] \<and> priceAt row t = Some q \<and> q \<noteq> p)))"
    if c: "c \<in> set (highlightCells (stores ck rows) row)" for c
  proof -
    have 1: "(\<forall>q\<in>?V. p \<le> q) = (\<forall>t q. t \<noteq> [] \<longrightarrow> priceAt row t = Some q \<longrightarrow> p \<le> q)" for p
      using V by blast
    have 2: "(\<forall>q\<in>?V. q \<le> p) = (\<forall>t q. t \<noteq> [] \<longrightarrow> priceAt row t = Some q \<longrightarrow> q \<le> p)" for p
      using V by blast
    have 3: "(\<exists>q\<in>?V. q \<noteq> p) = (\<exists>t q. t \<noteq> [] \<and> priceAt row t = Some q \<and> q \<noteq> p)" for p
      using V by blast
    from highlightCells_flags [OF c] show ?thesis
      by (simp only: 1 2 3)
  qed
  then show ?thesis
    by (simp add: highlightCells_stores)
qed

text \<open>
  The rows of the witness are the spec's examples: with prices \<open>3\<close>, \<open>3\<close>, \<open>5\<close> the stores \<open>A\<close>, \<open>B\<close>
  are best and \<open>C\<close> is worst; a row with the single price \<open>3\<close> has nothing worst.
\<close>

theorem highlight_spec_witness:
  "highlightCells
     (stores codeUnits [mkRow ''P'' [(''A'', ''3''), (''B'', ''3''), (''C'', ''5'')], mkRow ''Q'' [(''A'', ''3'')]])
     (mkRow ''P'' [(''A'', ''3''), (''B'', ''3''), (''C'', ''5'')])
     = [\<lparr>cell_store = ''A'', isBest = True, isWorst = False\<rparr>,
        \<lparr>cell_store = ''B'', isBest = True, isWorst = False\<rparr>,
        \<lparr>cell_store = ''C'', isBest = False, isWorst = True\<rparr>]
   \<and> highlightCells
     (stores codeUnits [mkRow ''P'' [(''A'', ''3''), (''B'', ''3''), (''C'', ''5'')], mkRow ''Q'' [(''A'', ''3'')]])
     (mkRow ''Q'' [(''A'', ''3'')])
     = [\<lparr>cell_store = ''A'', isBest = True, isWorst = False\<rparr>,
        \<lparr>cell_store = ''B'', isBest = False, isWorst = False\<rparr>,
        \<lparr>cell_store = ''C'', isBest = False, isWorst = False\<rparr>]"
proof -
  let ?P = "mkRow ''P'' [(''A'', ''3''), (''B'', ''3''), (''C'', ''5'')]"
  let ?Q = "mkRow ''Q'' [(''A'', ''3'')]"
  have "?P \<in> set [?P, ?Q]" by simp
  from highlight_spec [OF this, of codeUnits] show ?thesis
    by (simp add: row_eval stores_eval highlight_eval codeUnits_def)
qed

section \<open>Properties of the plan view\<close>

lemma planBest_fold:
  defines "step \<equiv> \<lambda>best e. case entryPrice e of
                        None \<Rightarrow> best
                      | Some p \<Rightarrow> (case best of None \<Rightarrow> Some p
                                   | Some b \<Rightarrow> if p < b then Some p else best)"
  shows "(foldl step None es = None \<longleftrightarrow> (\<forall>e\<in>set es. entryPrice e = None))
       \<and> (\<forall>p. foldl step None es = Some p \<longrightarrow>
             (\<exists>e\<in>set es. entryPrice e = Some p)
           \<and> (\<forall>e\<in>set es. \<forall>q. entryPrice e = Some q \<longrightarrow> p \<le> q))"
proof (induction es rule: rev_induct)
  case Nil
  show ?case by simp
next
  case (snoc e es)
  show ?case
  proof (cases "entryPrice e")
    case None
    with snoc show ?thesis
      by (simp add: step_def)
  next
    case (Some q)
    show ?thesis
    proof (cases "foldl step None es")
      case None
      with Some snoc show ?thesis
        by (simp add: step_def)
    next
      case b: (Some b)
      with snoc have 1: "\<exists>e\<in>set es. entryPrice e = Some b"
        and 2: "\<forall>e\<in>set es. \<forall>q. entryPrice e = Some q \<longrightarrow> b \<le> q"
        by simp_all
      show ?thesis
      proof (cases "q < b")
        case True
        with 2 have "\<forall>e\<in>set es. \<forall>q'. entryPrice e = Some q' \<longrightarrow> q \<le> q'"
          by fastforce
        with True Some b show ?thesis
          by (simp add: step_def)
      next
        case False
        with Some b 1 2 show ?thesis
          by (auto simp: step_def)
      qed
    qed
  qed
qed

lemma planBest_None: "(planBest row = None) = (\<forall>e\<in>set (prices_by_store row). entryPrice e = None)"
  using planBest_fold [of "prices_by_store row"] by (simp add: planBest_def)

lemma planBest_Some:
  "planBest row = Some p \<Longrightarrow>
     (\<exists>e\<in>set (prices_by_store row). entryPrice e = Some p)
   \<and> (\<forall>e\<in>set (prices_by_store row). \<forall>q. entryPrice e = Some q \<longrightarrow> p \<le> q)"
  using planBest_fold [of "prices_by_store row"] by (simp add: planBest_def)

lemma bestPriceNumber_planRow [simp]: "bestPriceNumber (planRow ck row) = planBest row"
  by (simp add: planRow_def Let_def)

lemma supermarkets_planRow:
  "supermarkets (planRow ck row)
     = sort_key ck (if planBest row \<noteq> None
                    then map fst (filter (\<lambda>e. entryPrice e = planBest row) (prices_by_store row))
                    else [])"
  by (simp add: planRow_def Let_def)

text \<open>
  C6. The reported best price of a row is a parseable price of one of its entries and is below
  or equal to every parseable price of the row; the listed stores are exactly the stores of the
  entries whose price equals it, sorted ascending by store name under the collation. When no
  entry has a parseable price the best price is absent (rendered as no price) and the store
  list is empty.
\<close>

theorem planRow_spec:
  "(bestPriceNumber (planRow ck row) = None
      \<longleftrightarrow> (\<forall>e\<in>set (prices_by_store row). parsePrice (Some (price (snd e))) = None))
   \<and> (bestPriceNumber (planRow ck row) = None \<longrightarrow> supermarkets (planRow ck row) = [])
   \<and> (\<forall>p. bestPriceNumber (planRow ck row) = Some p \<longrightarrow>
         (\<exists>e\<in>set (prices_by_store row). parsePrice (Some (price (snd e))) = Some p)
       \<and> (\<forall>e\<in>set (prices_by_store row). \<forall>q. parsePrice (Some (price (snd e))) = Some q \<longrightarrow> p \<le> q)
       \<and> mset (supermarkets (planRow ck row))
           = mset (map fst (filter (\<lambda>e. parsePrice (Some (price (snd e))) = Some p)
                                   (prices_by_store row))))
   \<and> sorted (map ck (supermarkets (planRow ck row)))
   \<and> planRows ck rows = map (planRow ck) rows"
proof -
  have "sorted (map ck (supermarkets (planRow ck row)))"
    unfolding supermarkets_planRow by (rule sorted_sort_key)
  moreover have "supermarkets (planRow ck row) = []" if "planBest row = None"
    using that by (simp add: supermarkets_planRow)
  moreover have "mset (supermarkets (planRow ck row))
           = mset (map fst (filter (\<lambda>e. entryPrice e = Some p) (prices_by_store row)))"
    if "planBest row = Some p" for p
    using that by (simp add: supermarkets_planRow)
  ultimately show ?thesis
    using planBest_None [of row] planBest_Some [of row]
    by (simp add: entryPrice_def planRows_def)
qed

lemmas plan_eval = planRow_def planBest_def entryPrice_def Let_def codeUnits_def mkRow_def mkCell_def

theorem planRow_spec_witness:
  "bestPriceNumber (planRow codeUnits (mkRow ''P'' [(''B'', ''2''), (''C'', ''3''), (''A'', ''2'')])) = Some 2
   \<and> supermarkets (planRow codeUnits (mkRow ''P'' [(''B'', ''2''), (''C'', ''3''), (''A'', ''2'')]))
       = [''A'', ''B'']
   \<and> bestPriceNumber (planRow codeUnits (mkRow ''V'' [(''C'', ''n/a'')])) = None
   \<and> supermarkets (planRow codeUnits (mkRow ''V'' [(''C'', ''n/a'')])) = []"
  using planRow_spec [of codeUnits "mkRow ''P'' [(''B'', ''2''), (''C'', ''3''), (''A'', ''2'')]" "[]"]
    planRow_spec [of codeUnits "mkRow ''V'' [(''C'', ''n/a'')]" "[]"]
  by (simp add: plan_eval)

end
